theory Spec2Isabelle
  imports Complex_Main
begin

section \<open>JavaScript values used by the converter\<close>

text \<open>
  A JavaScript string is a sequence of UTF-16 code units; \<open>length\<close>, \<open>includes\<close>,
  \<open>startsWith\<close> and the regular expressions of the source (none has the \<open>u\<close> flag) all
  count code units. A code unit is modelled by its number, a string by the list of its
  code units. \<open>js\<close> turns an ASCII literal into such a list; text outside ASCII is
  written as the list of its code units.

  A JavaScript number is modelled by a rational, or \<open>NaN\<close>. The lengths of the
  layout (pixels, points, inches) are computed on the rationals as they stand. Where a
  result is compared with a bound or rounded to an integer after arithmetic on decimal
  fractions, in \<open>extractAlpha\<close> and \<open>getRotation\<close>, every operation rounds to the nearest
  IEEE double, as \<open>binary64\<close> below does. The infinities and the sign of zero are outside
  the model.
\<close>

type_synonym jsstring = "nat list"

definition js :: "string \<Rightarrow> jsstring" where
  "js s = map of_char s"

datatype jsnum = NaN | Num rat

subsection \<open>Character classes of the regular expressions\<close>

definition isSpace :: "nat \<Rightarrow> bool" where
  \<comment> \<open>the class \<open>\s\<close>, which is also what \<open>trim\<close> strips\<close>
  "isSpace c = (c \<in> {9, 10, 11, 12, 13, 32, 160, 5760, 8232, 8233, 8239, 8287, 12288, 65279}
                 \<or> (8192 \<le> c \<and> c \<le> 8202))"

definition isDigit :: "nat \<Rightarrow> bool" where
  "isDigit c = (48 \<le> c \<and> c \<le> 57)"

definition isWordChar :: "nat \<Rightarrow> bool" where
  \<comment> \<open>the class \<open>\w\<close>\<close>
  "isWordChar c = ((48 \<le> c \<and> c \<le> 57) \<or> (65 \<le> c \<and> c \<le> 90) \<or> c = 95 \<or> (97 \<le> c \<and> c \<le> 122))"

definition isHexDigit :: "nat \<Rightarrow> bool" where
  "isHexDigit c = ((48 \<le> c \<and> c \<le> 57) \<or> (65 \<le> c \<and> c \<le> 70) \<or> (97 \<le> c \<and> c \<le> 102))"

definition lowerAscii :: "nat \<Rightarrow> nat" where
  "lowerAscii c = (if 65 \<le> c \<and> c \<le> 90 then c + 32 else c)"

subsection \<open>String methods\<close>

fun startsWith :: "jsstring \<Rightarrow> jsstring \<Rightarrow> bool" where
  \<comment> \<open>\<open>s.startsWith(p)\<close>\<close>
  "startsWith s [] = True"
| "startsWith [] (p # ps) = False"
| "startsWith (c # cs) (p # ps) = (c = p \<and> startsWith cs ps)"

fun strIncludes :: "jsstring \<Rightarrow> jsstring \<Rightarrow> bool" where
  \<comment> \<open>\<open>s.includes(p)\<close>\<close>
  "strIncludes [] p = (p = [])"
| "strIncludes (c # cs) p = (startsWith (c # cs) p \<or> strIncludes cs p)"

definition trimStart :: "jsstring \<Rightarrow> jsstring" where
  "trimStart s = dropWhile isSpace s"

definition trimEnd :: "jsstring \<Rightarrow> jsstring" where
  "trimEnd s = rev (dropWhile isSpace (rev s))"

definition trim :: "jsstring \<Rightarrow> jsstring" where
  "trim s = trimEnd (trimStart s)"

fun joinWith :: "jsstring \<Rightarrow> jsstring list \<Rightarrow> jsstring" where
  \<comment> \<open>\<open>xs.join(sep)\<close>\<close>
  "joinWith sep [] = []"
| "joinWith sep [x] = x"
| "joinWith sep (x # y # ys) = x @ sep @ joinWith sep (y # ys)"

fun splitOn :: "nat \<Rightarrow> jsstring \<Rightarrow> jsstring list" where
  \<comment> \<open>\<open>s.split(c)\<close> for a separator of one code unit\<close>
  "splitOn d [] = [[]]"
| "splitOn d (c # cs) =
     (if c = d then [] # splitOn d cs
      else (case splitOn d cs of [] \<Rightarrow> [[c]] | x # xs \<Rightarrow> (c # x) # xs))"

fun findFirst :: "(jsstring \<Rightarrow> 'a option) \<Rightarrow> jsstring \<Rightarrow> 'a option" where
  \<comment> \<open>an unanchored regular expression tries every start position, leftmost first\<close>
  "findFirst m [] = m []"
| "findFirst m (c # cs) = (case m (c # cs) of Some r \<Rightarrow> Some r | None \<Rightarrow> findFirst m cs)"

definition stripPrefix :: "jsstring \<Rightarrow> jsstring \<Rightarrow> jsstring option" where
  "stripPrefix p s = (if startsWith s p then Some (drop (length p) s) else None)"

subsection \<open>Numbers\<close>

definition digitsVal :: "jsstring \<Rightarrow> nat" where
  "digitsVal ds = foldl (\<lambda>n c. 10 * n + (c - 48)) 0 ds"

definition signed :: "bool \<Rightarrow> rat \<Rightarrow> rat" where
  "signed neg x = (if neg then - x else x)"

definition pow10 :: "bool \<Rightarrow> nat \<Rightarrow> rat" where
  "pow10 neg e = (if neg then 1 / 10 ^ e else 10 ^ e)"

definition exponentPart :: "jsstring \<Rightarrow> rat" where
  \<comment> \<open>the factor of an exponent part \<open>[eE][+-]?\d+\<close> at the head of the string, 1 without one\<close>
  "exponentPart s =
     (case s of
        [] \<Rightarrow> 1
      | c # r \<Rightarrow>
          if c = 101 \<or> c = 69 then
            (let neg = (r \<noteq> [] \<and> hd r = 45);
                 r' = (if r \<noteq> [] \<and> (hd r = 45 \<or> hd r = 43) then tl r else r);
                 ds = takeWhile isDigit r'
             in if ds = [] then 1 else pow10 neg (digitsVal ds))
          else 1)"

definition parseFloat :: "jsstring \<Rightarrow> jsnum" where
  \<comment> \<open>\<open>parseFloat\<close>: the longest prefix, after leading white space, that is a decimal
      literal; \<open>NaN\<close> when there is none. The literal \<open>Infinity\<close> is outside the model.\<close>
  "parseFloat str =
     (let s = trimStart str;
          neg = (s \<noteq> [] \<and> hd s = 45);
          s1 = (if s \<noteq> [] \<and> (hd s = 45 \<or> hd s = 43) then tl s else s);
          ip = takeWhile isDigit s1;
          r1 = dropWhile isDigit s1;
          fp = (if r1 \<noteq> [] \<and> hd r1 = 46 then takeWhile isDigit (tl r1) else []);
          r2 = (if r1 \<noteq> [] \<and> hd r1 = 46 then dropWhile isDigit (tl r1) else r1)
      in if ip = [] \<and> fp = [] then NaN
         else Num (signed neg
                ((of_nat (digitsVal ip) + of_nat (digitsVal fp) / 10 ^ length fp) * exponentPart r2)))"

definition mathRound :: "rat \<Rightarrow> int" where
  \<comment> \<open>\<open>Math.round\<close>: to the nearest integer, a half towards plus infinity\<close>
  "mathRound x = \<lfloor>x + 1 / 2\<rfloor>"



subsection \<open>IEEE doubles\<close>

definition pow2 :: "int \<Rightarrow> rat" where
  "pow2 e = (if 0 \<le> e then 2 ^ nat e else 1 / 2 ^ nat (- e))"

definition roundEven :: "rat \<Rightarrow> int" where
  \<comment> \<open>to the nearest integer, a half to the even neighbour\<close>
  "roundEven x =
     (let f = \<lfloor>x\<rfloor>; d = x - of_int f
      in if d < 1 / 2 then f else if 1 / 2 < d then f + 1 else if even f then f else f + 1)"

fun expDown :: "nat \<Rightarrow> rat \<Rightarrow> int" where
  \<comment> \<open>for \<open>0 < x < 1\<close>: the exponent of the power of two at or below \<open>x\<close>, not below \<open>- n\<close>\<close>
  "expDown 0 x = 0"
| "expDown (Suc n) x = (if x < 1 then expDown n (2 * x) - 1 else 0)"

fun expUp :: "nat \<Rightarrow> rat \<Rightarrow> int" where
  \<comment> \<open>for \<open>1 \<le> x\<close>: the exponent of the power of two at or below \<open>x\<close>, not above \<open>n\<close>\<close>
  "expUp 0 x = 0"
| "expUp (Suc n) x = (if 2 \<le> x then expUp n (x / 2) + 1 else 0)"

definition exponent :: "rat \<Rightarrow> int" where
  \<comment> \<open>the exponent of a positive number as a double: between \<open>-1022\<close>, which the
      subnormal numbers share, and \<open>1023\<close>\<close>
  "exponent x = (if x < 1 then expDown 1022 x else expUp 1023 x)"

definition binary64 :: "rat \<Rightarrow> rat" where
  \<comment> \<open>the double nearest to \<open>x\<close>, a tie to the even significand: a multiple of the unit
      in the last place of the 53-bit significand. A result beyond the largest double,
      which would be an infinity, is outside the model.\<close>
  "binary64 x =
     (if x = 0 then 0
      else (let u = pow2 (exponent \<bar>x\<bar> - 52) in of_int (roundEven (x / u)) * u))"



subsection \<open>Units\<close>

definition PT_PER_PX :: rat where "PT_PER_PX = 3 / 4"
definition PX_PER_IN :: rat where "PX_PER_IN = 96"

section \<open>Validation: overflow check and the aggregate failure\<close>

subsection \<open>Message texts\<close>

text \<open>
  The messages of the source are Chinese; each constant lists the code units of the
  text named in its comment.
\<close>

definition str_overflow_head :: jsstring where
  \<comment> \<open>"HTML (content exceeds) body (area), opening full-width parenthesis"\<close>
  "str_overflow_head = js ''HTML '' @ [0x5185, 0x5BB9, 0x8D85, 0x51FA] @ js '' body '' @ [0x533A, 0x57DF, 0xFF08]"

definition str_overflow_mid :: jsstring where
  \<comment> \<open>closing full-width parenthesis, full-width colon\<close>
  "str_overflow_mid = [0xFF09, 0xFF1A]"

definition str_horizontal :: jsstring where
  \<comment> \<open>"px (horizontal direction)"\<close>
  "str_horizontal = js ''px '' @ [0x6C34, 0x5E73, 0x65B9, 0x5411]"

definition str_vertical :: jsstring where
  \<comment> \<open>"px (vertical direction)"\<close>
  "str_vertical = js ''px '' @ [0x5782, 0x76F4, 0x65B9, 0x5411]"

definition str_and :: jsstring where
  \<comment> \<open>" (and) "\<close>
  "str_and = [32, 0x548C, 32]"

definition str_reminder :: jsstring where
  \<comment> \<open>"(note: the bottom of the slide needs a margin of 48px(0.5 inch))", in full-width parentheses\<close>
  "str_reminder = [0xFF08, 0x6CE8, 0x610F, 0xFF1A, 0x5E7B, 0x706F, 0x7247, 0x5E95, 0x90E8, 0x9700, 0x9884, 0x7559]
     @ js '' 48px(0.5 '' @ [0x82F1, 0x5BF8] @ js '')'' @ [0x8FB9, 0x8DDD, 0xFF09]"

definition str_multi_header :: jsstring where
  \<comment> \<open>"(several validation errors were found), full-width colon, line feed"\<close>
  "str_multi_header = [0x53D1, 0x73B0, 0x591A, 0x4E2A, 0x6821, 0x9A8C, 0x9519, 0x8BEF, 0xFF1A, 10]"

subsection \<open>getBodyDimensions\<close>

definition getBodyDimensions :: "(rat \<Rightarrow> jsstring) \<Rightarrow> rat \<Rightarrow> rat \<Rightarrow> rat \<Rightarrow> rat \<Rightarrow> jsstring list" where
  \<comment> \<open>the \<open>errors\<close> field of the result, from the four numbers read in the page.
      \<open>numToString\<close> is the conversion of a number in a template literal.\<close>
  "getBodyDimensions numToString width height scrollWidth scrollHeight =
     (let widthOverflowPx = max 0 (scrollWidth - width - 1);
          heightOverflowPx = max 0 (scrollHeight - height - 1);
          widthOverflowPt = widthOverflowPx * PT_PER_PX;
          heightOverflowPt = heightOverflowPx * PT_PER_PX
      in if widthOverflowPt > 0 \<or> heightOverflowPt > 0 then
           (let directions =
                  (if widthOverflowPx > 0 then [numToString widthOverflowPx @ str_horizontal] else [])
                  @ (if heightOverflowPx > 0 then [numToString heightOverflowPx @ str_vertical] else []);
                reminder = (if heightOverflowPt > 0 then str_reminder else [])
            in [str_overflow_head @ numToString width @ js ''x'' @ numToString height
                @ str_overflow_mid @ joinWith str_and directions @ reminder @ js '' ''])
         else [])"

subsection \<open>html2pptx: all errors at once\<close>

fun natToString :: "nat \<Rightarrow> jsstring" where
  \<comment> \<open>a non-negative integer in a template literal: its decimal digits\<close>
  "natToString n = (if n < 10 then [48 + n] else natToString (n div 10) @ [48 + n mod 10])"

fun numbered :: "nat \<Rightarrow> jsstring list \<Rightarrow> jsstring list" where
  \<comment> \<open>\<open>validationErrors.map((e, i) => `  ${i + 1}. ${e}`)\<close>, from index \<open>i\<close> on\<close>
  "numbered i [] = []"
| "numbered i (e # es) = (js ''  '' @ natToString (i + 1) @ js ''. '' @ e) # numbered (Suc i) es"

definition validationMessage :: "jsstring list \<Rightarrow> jsstring" where
  "validationMessage validationErrors =
     (if length validationErrors = 1 then hd validationErrors
      else str_multi_header @ joinWith [10] (numbered 0 validationErrors))"

definition rethrow :: "jsstring \<Rightarrow> jsstring \<Rightarrow> jsstring" where
  \<comment> \<open>the \<open>catch\<close> block of \<open>html2pptx\<close>: the message of the error that leaves the function\<close>
  "rethrow htmlFile message =
     (if \<not> startsWith message htmlFile then htmlFile @ js '': '' @ message else message)"

definition html2pptx ::
  "('p \<Rightarrow> 's \<times> 'p) \<Rightarrow> ('s \<Rightarrow> 's) \<Rightarrow> jsstring \<Rightarrow> jsstring list \<Rightarrow> jsstring list \<Rightarrow> jsstring list
     \<Rightarrow> jsstring list \<Rightarrow> 's option \<Rightarrow> 'p \<Rightarrow> (jsstring + 's) \<times> 'p" where
  \<comment> \<open>\<open>html2pptx\<close> from the point where the browser is closed. The four error lists are
      those of \<open>getBodyDimensions\<close>, \<open>validateDimensions\<close>, \<open>validateTextBoxPosition\<close> and
      \<open>extractSlideData\<close>; \<open>addSlide\<close> is the presentation's own method and \<open>emit\<close> puts the
      background and the elements on the slide. The result is the message of the error
      thrown (\<open>Inl\<close>) or the slide returned, with the presentation as it is left.\<close>
  "html2pptx addSlide emit htmlFile bodyErrors dimensionErrors textBoxPositionErrors slideErrors slide pres =
     (let validationErrors = bodyErrors @ dimensionErrors @ textBoxPositionErrors @ slideErrors
      in if length validationErrors > 0
         then (Inl (rethrow htmlFile (validationMessage validationErrors)), pres)
         else (case slide of
                 Some s \<Rightarrow> (Inr (emit s), pres)
               | None \<Rightarrow> (let (s, pres') = addSlide pres in (Inr (emit s), pres'))))"

section \<open>Layout extraction: units, rotation, corner radius\<close>

definition pxToInch :: "rat \<Rightarrow> rat" where
  "pxToInch px = px / PX_PER_IN"

subsection \<open>getRotation\<close>







subsection \<open>Corner radius of a shape\<close>

definition rectRadius :: "jsstring \<Rightarrow> rat \<Rightarrow> rat \<Rightarrow> jsnum" where
  \<comment> \<open>the \<open>rectRadius\<close> field of a shape, from the computed \<open>border-radius\<close> and the
      width and height of the bounding rectangle in pixels\<close>
  "rectRadius radius w h =
     (case parseFloat radius of
        NaN \<Rightarrow> NaN
      | Num radiusValue \<Rightarrow>
          if radiusValue = 0 then Num 0
          else if strIncludes radius (js ''%'') then
            (if radiusValue \<ge> 50 then Num 1
             else Num ((radiusValue / 100) * pxToInch (min w h)))
          else if strIncludes radius (js ''pt'') then Num (radiusValue / 72)
          else Num (radiusValue / PX_PER_IN))"

subsection \<open>Colours\<close>

definition digits1 :: "jsstring \<Rightarrow> (jsstring \<times> jsstring) option" where
  \<comment> \<open>\<open>\d+\<close> at the head: the digits and the rest\<close>
  "digits1 s = (if takeWhile isDigit s = [] then None
                else Some (takeWhile isDigit s, dropWhile isDigit s))"

definition commaSpace :: "jsstring \<Rightarrow> jsstring option" where
  \<comment> \<open>\<open>,\s*\<close> at the head: the rest\<close>
  "commaSpace s = (case s of [] \<Rightarrow> None | c # r \<Rightarrow> if c = 44 then Some (dropWhile isSpace r) else None)"

definition threeChannels :: "jsstring \<Rightarrow> (jsstring list \<times> jsstring) option" where
  \<comment> \<open>\<open>(\d+),\s*(\d+),\s*(\d+)\<close> at the head: the three captures and the rest\<close>
  "threeChannels s =
     (case digits1 s of None \<Rightarrow> None | Some (r, s1) \<Rightarrow>
      (case commaSpace s1 of None \<Rightarrow> None | Some s2 \<Rightarrow>
       (case digits1 s2 of None \<Rightarrow> None | Some (g, s3) \<Rightarrow>
        (case commaSpace s3 of None \<Rightarrow> None | Some s4 \<Rightarrow>
         (case digits1 s4 of None \<Rightarrow> None | Some (b, s5) \<Rightarrow> Some ([r, g, b], s5))))))"

definition matchRgbAt :: "jsstring \<Rightarrow> jsstring list option" where
  \<comment> \<open>\<open>/rgba?\((\d+),\s*(\d+),\s*(\d+)/\<close> anchored at the head; the captures\<close>
  "matchRgbAt s =
     (case stripPrefix (js ''rgb'') s of None \<Rightarrow> None | Some r \<Rightarrow>
      (case stripPrefix (js ''('') (if r \<noteq> [] \<and> hd r = 97 then tl r else r) of None \<Rightarrow> None | Some r1 \<Rightarrow>
       (case threeChannels r1 of None \<Rightarrow> None | Some (caps, rest) \<Rightarrow> Some caps)))"

definition matchAlphaAt :: "jsstring \<Rightarrow> jsstring option" where
  \<comment> \<open>\<open>/rgba\((\d+),\s*(\d+),\s*(\d+),\s*([\d.]+)\)/\<close> anchored at the head; the fourth capture\<close>
  "matchAlphaAt s =
     (case stripPrefix (js ''rgba('') s of None \<Rightarrow> None | Some r1 \<Rightarrow>
      (case threeChannels r1 of None \<Rightarrow> None | Some (caps, s1) \<Rightarrow>
       (case commaSpace s1 of None \<Rightarrow> None | Some s2 \<Rightarrow>
        (let a = takeWhile (\<lambda>c. isDigit c \<or> c = 46) s2;
             s3 = dropWhile (\<lambda>c. isDigit c \<or> c = 46) s2
         in if a \<noteq> [] \<and> startsWith s3 (js '')'') then Some a else None))))"

definition hexDigit :: "nat \<Rightarrow> nat" where
  "hexDigit d = (if d < 10 then 48 + d else 87 + d)"

fun natToHex :: "nat \<Rightarrow> jsstring" where
  \<comment> \<open>\<open>n.toString(16)\<close> for a non-negative integer: lower-case digits\<close>
  "natToHex n = (if n < 16 then [hexDigit n] else natToHex (n div 16) @ [hexDigit (n mod 16)])"

definition padStart2 :: "jsstring \<Rightarrow> jsstring" where
  \<comment> \<open>\<open>s.padStart(2, "0")\<close>\<close>
  "padStart2 s = replicate (2 - length s) 48 @ s"

definition rgbToHex :: "jsstring \<Rightarrow> jsstring" where
  "rgbToHex rgbStr =
     (if rgbStr = js ''rgba(0, 0, 0, 0)'' \<or> rgbStr = js ''transparent'' then js ''FFFFFF''
      else (case findFirst matchRgbAt rgbStr of
              None \<Rightarrow> js ''FFFFFF''
            | Some caps \<Rightarrow> concat (map (\<lambda>n. padStart2 (natToHex (digitsVal n))) caps)))"

definition extractAlpha :: "jsstring \<Rightarrow> jsnum option" where
  \<comment> \<open>\<open>None\<close> is \<open>null\<close>. The capture \<open>[\d.]+\<close> is never empty, so \<open>!match[4]\<close> is false.
      \<open>alpha\<close> is the double that the capture denotes; the difference and the product
      are rounded to doubles before \<open>Math.round\<close>.\<close>
  "extractAlpha rgbStr =
     (case findFirst matchAlphaAt rgbStr of
        None \<Rightarrow> None
      | Some a \<Rightarrow>
          (case parseFloat a of
             NaN \<Rightarrow> Some NaN
           | Num v \<Rightarrow>
               (let alpha = binary64 v
                in Some (Num (of_int (mathRound (binary64 (binary64 (1 - alpha) * 100))))))))"

definition pxToPoints :: "jsstring \<Rightarrow> jsnum" where
  "pxToPoints pxStr = (case parseFloat pxStr of NaN \<Rightarrow> NaN | Num v \<Rightarrow> Num (v * PT_PER_PX))"

subsection \<open>Containers: shapes and border lines\<close>

datatype position = Position (pos_x: rat) (pos_y: rat) (pos_w: rat) (pos_h: rat)

datatype rect = Rect (rect_left: rat) (rect_top: rat) (rect_width: rat) (rect_height: rat)

text \<open>
  The elements that the container branch pushes: a shape, with the fields of its
  \<open>shape\<close> object, and a line. \<open>'sh\<close> is the shadow object that \<open>parseBoxShadow\<close> builds.
\<close>

datatype 'sh element =
    Shape (shape_position: position) (shape_fill: "jsstring option")
      (shape_transparency: "jsnum option") (shape_line: "(jsstring \<times> jsnum) option")
      (shape_rectRadius: jsnum) (shape_shadow: "'sh option")
  | Line (line_x1: rat) (line_y1: rat) (line_x2: rat) (line_y2: rat) (line_width: rat)
      (line_color: jsstring)

datatype placeholder = Placeholder (ph_id: jsstring) (ph_position: position)

record divStyle =
  backgroundColor :: jsstring
  backgroundImage :: jsstring
  borderTopWidth :: jsstring
  borderRightWidth :: jsstring
  borderBottomWidth :: jsstring
  borderLeftWidth :: jsstring
  borderTopColor :: jsstring
  borderRightColor :: jsstring
  borderBottomColor :: jsstring
  borderLeftColor :: jsstring
  borderWidth :: jsstring
  borderColor :: jsstring
  borderRadius :: jsstring
  boxShadow :: jsstring

definition str_placeholder_zero :: "jsstring \<Rightarrow> jsstring" where
  \<comment> \<open>"(placeholder) <name> (has width or height 0. Check the layout) CSS."\<close>
  "str_placeholder_zero name = [0x5360, 0x4F4D, 0x7B26, 0x201C] @ name
     @ [0x201D, 0x5BBD, 0x9AD8, 0x4E3A] @ js ''0'' @ [0x3002, 0x8BF7, 0x68C0, 0x67E5, 0x5E03, 0x5C40]
     @ js ''CSS'' @ [0x3002]"

definition str_unnamed :: jsstring where
  \<comment> \<open>"(unnamed)"\<close>
  "str_unnamed = [0x672A, 0x547D, 0x540D]"

definition str_unwrapped_text :: "jsstring \<Rightarrow> jsstring" where
  \<comment> \<open>"DIV (element contains unwrapped text) <text>. (All text must be wrapped in) <p>,
      <h1>-<h6>, <ul> (or) <ol> (tags to show in) PPT."\<close>
  "str_unwrapped_text t =
     js ''DIV '' @ [0x5143, 0x7D20, 0x5305, 0x542B, 0x672A, 0x5305, 0x88F9, 0x6587, 0x672C, 0x201C] @ t
     @ [0x201D, 0x3002, 0x6240, 0x6709, 0x6587, 0x672C, 0x5FC5, 0x987B, 0x7528] @ js '' <p>'' @ [0x3001]
     @ js ''<h1>-<h6>'' @ [0x3001] @ js ''<ul> '' @ [0x6216] @ js '' <ol> ''
     @ [0x6807, 0x7B7E, 0x5305, 0x88F9, 0xFF0C, 0x624D, 0x80FD, 0x5728] @ js '' PPT ''
     @ [0x4E2D, 0x663E, 0x793A, 0x3002]"

definition str_div_background_image :: jsstring where
  \<comment> \<open>"DIV (background images on elements are not supported. Use a solid colour or a border
      as the shape, or overlay the picture with) slide.addImage()."\<close>
  "str_div_background_image =
     js ''DIV '' @ [0x5143, 0x7D20, 0x4E0A, 0x7684, 0x80CC, 0x666F, 0x56FE, 0x7247, 0x4E0D, 0x652F, 0x6301,
       0x3002, 0x8BF7, 0x4F7F, 0x7528, 0x7EAF, 0x8272, 0x6216, 0x8FB9, 0x6846, 0x4F5C, 0x4E3A, 0x5F62, 0x72B6,
       0xFF0C, 0x6216, 0x7528] @ js '' slide.addImage() '' @ [0x53E0, 0x52A0, 0x56FE, 0x7247, 0x3002]"

definition numOr0 :: "jsnum \<Rightarrow> rat" where
  \<comment> \<open>\<open>n || 0\<close>\<close>
  "numOr0 n = (case n of NaN \<Rightarrow> 0 | Num v \<Rightarrow> v)"

definition positive :: "jsnum \<Rightarrow> bool" where
  \<comment> \<open>\<open>n > 0\<close>, false for \<open>NaN\<close>\<close>
  "positive n = (case n of NaN \<Rightarrow> False | Num v \<Rightarrow> v > 0)"

definition unwrappedTextErrors :: "jsstring list \<Rightarrow> jsstring list" where
  \<comment> \<open>one error for each child text node of the container that is not white space only\<close>
  "unwrappedTextErrors childTexts =
     concat (map (\<lambda>content.
        (let t = trim content
         in if t \<noteq> [] then [str_unwrapped_text (take 50 t @ (if length t > 50 then js ''...'' else []))]
            else [])) childTexts)"

definition borderLines :: "divStyle \<Rightarrow> rect \<Rightarrow> 'sh element list" where
  \<comment> \<open>the lines collected for a border that is not uniform, in the order top, right,
      bottom, left\<close>
  "borderLines computed r =
     (let x = pxToInch (rect_left r); y = pxToInch (rect_top r);
          w = pxToInch (rect_width r); h = pxToInch (rect_height r)
      in (if positive (parseFloat (borderTopWidth computed)) then
            (let widthPt = numOr0 (pxToPoints (borderTopWidth computed)); inset = widthPt / 72 / 2
             in [Line x (y + inset) (x + w) (y + inset) widthPt (rgbToHex (borderTopColor computed))])
          else [])
       @ (if positive (parseFloat (borderRightWidth computed)) then
            (let widthPt = numOr0 (pxToPoints (borderRightWidth computed)); inset = widthPt / 72 / 2
             in [Line (x + w - inset) y (x + w - inset) (y + h) widthPt (rgbToHex (borderRightColor computed))])
          else [])
       @ (if positive (parseFloat (borderBottomWidth computed)) then
            (let widthPt = numOr0 (pxToPoints (borderBottomWidth computed)); inset = widthPt / 72 / 2
             in [Line x (y + h - inset) (x + w) (y + h - inset) widthPt (rgbToHex (borderBottomColor computed))])
          else [])
       @ (if positive (parseFloat (borderLeftWidth computed)) then
            (let widthPt = numOr0 (pxToPoints (borderLeftWidth computed)); inset = widthPt / 72 / 2
             in [Line (x + inset) y (x + inset) (y + h) widthPt (rgbToHex (borderLeftColor computed))])
          else []))"

record 'sh visited =
  pushedElements :: "'sh element list"
  pushedPlaceholders :: "placeholder list"
  pushedErrors :: "jsstring list"
  processed :: bool

definition visitDiv ::
  "(jsstring \<Rightarrow> 'sh option) \<Rightarrow> bool \<Rightarrow> jsstring \<Rightarrow> nat \<Rightarrow> rect \<Rightarrow> divStyle \<Rightarrow> jsstring list \<Rightarrow> 'sh visited" where
  \<comment> \<open>one round of the loop over all elements in \<open>extractSlideData\<close>, for an element whose
      tag is \<open>DIV\<close>: what it pushes to \<open>elements\<close>, \<open>placeholders\<close> and \<open>errors\<close>, and whether
      the element is added to \<open>processed\<close>. \<open>isPlaceholder\<close> says whether the class list has
      \<open>placeholder\<close>, \<open>nPlaceholders\<close> is the number of placeholders found before, and
      \<open>childTexts\<close> are the contents of the child text nodes.\<close>
  "visitDiv parseBoxShadow isPlaceholder elId nPlaceholders r computed childTexts =
     (if isPlaceholder then
        (if rect_width r = 0 \<or> rect_height r = 0
         then \<lparr>pushedElements = [], pushedPlaceholders = [],
               pushedErrors = [str_placeholder_zero (if elId \<noteq> [] then elId else str_unnamed)],
               processed = True\<rparr>
         else \<lparr>pushedElements = [],
               pushedPlaceholders =
                 [Placeholder (if elId \<noteq> [] then elId else js ''placeholder-'' @ natToString nPlaceholders)
                    (Position (pxToInch (rect_left r)) (pxToInch (rect_top r))
                       (pxToInch (rect_width r)) (pxToInch (rect_height r)))],
               pushedErrors = [], processed = True\<rparr>)
      else
        (let hasBg = (backgroundColor computed \<noteq> [] \<and> backgroundColor computed \<noteq> js ''rgba(0, 0, 0, 0)'');
             textErrors = unwrappedTextErrors childTexts;
             bgImage = backgroundImage computed
         in if bgImage \<noteq> [] \<and> bgImage \<noteq> js ''none'' then
              \<lparr>pushedElements = [], pushedPlaceholders = [],
               pushedErrors = textErrors @ [str_div_background_image], processed = False\<rparr>
            else
              (let borders = map (\<lambda>b. numOr0 (parseFloat b))
                     [borderTopWidth computed, borderRightWidth computed,
                      borderBottomWidth computed, borderLeftWidth computed];
                   hasBorder = (\<exists>b \<in> set borders. b > 0);
                   hasUniformBorder = (hasBorder \<and> (\<forall>b \<in> set borders. b = borders ! 0));
                   lines = (if hasBorder \<and> \<not> hasUniformBorder then borderLines computed r else [])
               in if (hasBg \<or> hasBorder) \<and> rect_width r > 0 \<and> rect_height r > 0 then
                    \<lparr>pushedElements =
                       (if hasBg \<or> hasUniformBorder then
                          [Shape (Position (pxToInch (rect_left r)) (pxToInch (rect_top r))
                                    (pxToInch (rect_width r)) (pxToInch (rect_height r)))
                             (if hasBg then Some (rgbToHex (backgroundColor computed)) else None)
                             (if hasBg then extractAlpha (backgroundColor computed) else None)
                             (if hasUniformBorder
                              then Some (rgbToHex (borderColor computed), pxToPoints (borderWidth computed))
                              else None)
                             (rectRadius (borderRadius computed) (rect_width r) (rect_height r))
                             (parseBoxShadow (boxShadow computed))]
                        else [])
                       @ lines,
                     pushedPlaceholders = [], pushedErrors = textErrors, processed = True\<rparr>
                  else
                    \<lparr>pushedElements = [], pushedPlaceholders = [], pushedErrors = textErrors,
                     processed = False\<rparr>)))"

subsection \<open>Inline formatting: text runs\<close>

record inlineStyle =
  fontWeight :: jsstring
  fontFamily :: jsstring
  fontStyle :: jsstring
  textDecoration :: jsstring
  color :: jsstring
  fontSize :: jsstring
  textTransform :: jsstring
  marginLeft :: jsstring
  marginRight :: jsstring
  marginTop :: jsstring
  marginBottom :: jsstring

text \<open>
  A child node of a text element: a text node, an element with its tag name (in upper
  case, as \<open>tagName\<close> gives it), its computed style and its children, or a node of
  another kind, such as a comment.
\<close>

datatype inode = TextNode jsstring | Element jsstring inlineStyle "inode list" | OtherNode

record runOptions =
  bold :: bool
  italic :: bool
  underline :: bool
  run_color :: "jsstring option"
  transparency :: "jsnum option"
  run_fontSize :: "jsnum option"
  breakLine :: "bool option"

record run =
  run_text :: jsstring
  options :: runOptions

definition noOptions :: runOptions where
  \<comment> \<open>the empty object\<close>
  "noOptions = \<lparr>bold = False, italic = False, underline = False, run_color = None,
                 transparency = None, run_fontSize = None, breakLine = None\<rparr>"

fun textContent :: "inode \<Rightarrow> jsstring"
  and textContents :: "inode list \<Rightarrow> jsstring" where
  "textContent (TextNode t) = t"
| "textContent (Element tag style kids) = textContents kids"
| "textContent OtherNode = []"
| "textContents [] = []"
| "textContents (n # ns) = textContent n @ textContents ns"

fun collapseFrom :: "bool \<Rightarrow> jsstring \<Rightarrow> jsstring" where
  \<comment> \<open>\<open>s.replace(/\s+/g, " ")\<close>; the flag says whether the code unit before is white space\<close>
  "collapseFrom inSpace [] = []"
| "collapseFrom inSpace (c # cs) =
     (if isSpace c then (if inSpace then collapseFrom True cs else 32 # collapseFrom True cs)
      else c # collapseFrom False cs)"

definition collapseSpace :: "jsstring \<Rightarrow> jsstring" where
  "collapseSpace s = collapseFrom False s"

definition upperAscii :: "nat \<Rightarrow> nat" where
  "upperAscii c = (if 97 \<le> c \<and> c \<le> 122 then c - 32 else c)"

fun capitalize :: "bool \<Rightarrow> jsstring \<Rightarrow> jsstring" where
  \<comment> \<open>\<open>s.replace(/\b\w/g, (c) => c.toUpperCase())\<close>; the flag says whether the code unit
      before is a word character\<close>
  "capitalize prevWord [] = []"
| "capitalize prevWord (c # cs) =
     (if isWordChar c \<and> \<not> prevWord then upperAscii c else c) # capitalize (isWordChar c) cs"

definition applyTextTransform ::
  "(jsstring \<Rightarrow> jsstring) \<Rightarrow> (jsstring \<Rightarrow> jsstring) \<Rightarrow> jsstring \<Rightarrow> jsstring \<Rightarrow> jsstring" where
  \<comment> \<open>\<open>toUpperCase\<close> and \<open>toLowerCase\<close> of strings are parameters\<close>
  "applyTextTransform toUpperCase toLowerCase t transform =
     (if transform = js ''uppercase'' then toUpperCase t
      else if transform = js ''lowercase'' then toLowerCase t
      else if transform = js ''capitalize'' then capitalize False t
      else t)"

definition parseIntJs :: "jsstring \<Rightarrow> jsnum" where
  \<comment> \<open>\<open>parseInt(s)\<close>: white space, a sign, then decimal digits, or hexadecimal ones
      after \<open>0x\<close>\<close>
  "parseIntJs str =
     (let s = trimStart str;
          neg = (s \<noteq> [] \<and> hd s = 45);
          s1 = (if s \<noteq> [] \<and> (hd s = 45 \<or> hd s = 43) then tl s else s)
      in if startsWith s1 (js ''0x'') \<or> startsWith s1 (js ''0X'') then
           (let hs = takeWhile isHexDigit (drop 2 s1)
            in if hs = [] then NaN
               else Num (signed neg (of_nat (foldl (\<lambda>n c. 16 * n
                      + (if c \<le> 57 then c - 48 else if c \<le> 70 then c - 55 else c - 87)) 0 hs))))
         else
           (let ds = takeWhile isDigit s1
            in if ds = [] then NaN else Num (signed neg (of_nat (digitsVal ds)))))"

definition shouldSkipBold :: "jsstring \<Rightarrow> bool" where
  \<comment> \<open>the font family in lower case, without quotes, up to the first comma, trimmed, is
      \<open>impact\<close>. Only the letters of ASCII matter for the comparison.\<close>
  "shouldSkipBold family =
     (family \<noteq> [] \<and>
      trim (hd (splitOn 44 (filter (\<lambda>c. c \<noteq> 39 \<and> c \<noteq> 34) (map lowerAscii family)))) = js ''impact'')"

definition str_inline_margin :: "jsstring \<Rightarrow> jsstring \<Rightarrow> jsstring" where
  \<comment> \<open>"(inline element) <tag> (has) margin-side(, which) PPT (does not support. Remove the)
      margin (of the inline element)."\<close>
  "str_inline_margin tag side =
     [0x5185, 0x8054, 0x5143, 0x7D20] @ js '' <'' @ map lowerAscii tag @ js ''> '' @ [0x5B58, 0x5728]
     @ js '' margin-'' @ side @ [0xFF0C] @ js ''PPT ''
     @ [0x4E0D, 0x652F, 0x6301, 0x3002, 0x8BF7, 0x79FB, 0x9664, 0x5185, 0x8054, 0x5143, 0x7D20, 0x7684]
     @ js '' margin'' @ [0x3002]"

definition marginErrors :: "jsstring \<Rightarrow> inlineStyle \<Rightarrow> jsstring list" where
  "marginErrors tag computed =
     (if marginLeft computed \<noteq> [] \<and> positive (parseFloat (marginLeft computed))
      then [str_inline_margin tag (js ''left'')] else [])
     @ (if marginRight computed \<noteq> [] \<and> positive (parseFloat (marginRight computed))
        then [str_inline_margin tag (js ''right'')] else [])
     @ (if marginTop computed \<noteq> [] \<and> positive (parseFloat (marginTop computed))
        then [str_inline_margin tag (js ''top'')] else [])
     @ (if marginBottom computed \<noteq> [] \<and> positive (parseFloat (marginBottom computed))
        then [str_inline_margin tag (js ''bottom'')] else [])"

definition atLeast600 :: "jsnum \<Rightarrow> bool" where
  "atLeast600 n = (case n of NaN \<Rightarrow> False | Num v \<Rightarrow> v \<ge> 600)"

definition inlineOptions :: "runOptions \<Rightarrow> inlineStyle \<Rightarrow> runOptions" where
  \<comment> \<open>the options of an inline element: a copy of the base options, changed by its
      computed style\<close>
  "inlineOptions baseOptions computed =
     (let isBold = (fontWeight computed = js ''bold'' \<or> atLeast600 (parseIntJs (fontWeight computed)));
          o1 = (if isBold \<and> \<not> shouldSkipBold (fontFamily computed)
                then baseOptions\<lparr>bold := True\<rparr> else baseOptions);
          o2 = (if fontStyle computed = js ''italic'' then o1\<lparr>italic := True\<rparr> else o1);
          o3 = (if textDecoration computed \<noteq> [] \<and> strIncludes (textDecoration computed) (js ''underline'')
                then o2\<lparr>underline := True\<rparr> else o2);
          o4 = (if color computed \<noteq> [] \<and> color computed \<noteq> js ''rgb(0, 0, 0)''
                then (let oc = o3\<lparr>run_color := Some (rgbToHex (color computed))\<rparr>
                      in (case extractAlpha (color computed) of
                            None \<Rightarrow> oc
                          | Some t \<Rightarrow> oc\<lparr>transparency := Some t\<rparr>))
                else o3)
      in if fontSize computed \<noteq> [] then o4\<lparr>run_fontSize := Some (pxToPoints (fontSize computed))\<rparr> else o4)"

definition inlineTags :: "jsstring list" where
  "inlineTags = map js [''SPAN'', ''B'', ''STRONG'', ''I'', ''EM'', ''U'']"

definition addText :: "bool \<Rightarrow> runOptions \<Rightarrow> jsstring \<Rightarrow> run list \<Rightarrow> run list" where
  \<comment> \<open>a text node or a line break: joined to the last run when the node before was one
      too, a new run otherwise\<close>
  "addText prevNodeIsText baseOptions t runs =
     (if prevNodeIsText \<and> runs \<noteq> []
      then butlast runs @ [(last runs)\<lparr>run_text := run_text (last runs) @ t\<rparr>]
      else runs @ [\<lparr>run_text = t, options = baseOptions\<rparr>])"

definition trimRuns :: "run list \<Rightarrow> run list" where
  \<comment> \<open>the end of every call: the first run loses leading white space, the last run
      trailing white space\<close>
  "trimRuns runs =
     (if runs \<noteq> [] then
        (let r1 = runs[0 := (runs ! 0)\<lparr>run_text := trimStart (run_text (runs ! 0))\<rparr>];
             n = length r1 - 1
         in r1[n := (r1 ! n)\<lparr>run_text := trimEnd (run_text (r1 ! n))\<rparr>])
      else runs)"

definition isText :: "inode \<Rightarrow> bool" where
  \<comment> \<open>a text node or a line break\<close>
  "isText n = (case n of TextNode t \<Rightarrow> True | Element tag computed kids \<Rightarrow> tag = js ''BR'' | OtherNode \<Rightarrow> False)"

definition nodeText :: "(jsstring \<Rightarrow> jsstring) \<Rightarrow> inode \<Rightarrow> jsstring" where
  \<comment> \<open>the fragment of a text node or a line break\<close>
  "nodeText transform n =
     (case n of TextNode t \<Rightarrow> transform (collapseSpace t) | _ \<Rightarrow> [10])"

fun parseNode ::
  "(jsstring \<Rightarrow> jsstring) \<Rightarrow> (jsstring \<Rightarrow> jsstring) \<Rightarrow> inode \<Rightarrow> runOptions \<Rightarrow> (jsstring \<Rightarrow> jsstring) \<Rightarrow> bool
     \<Rightarrow> run list \<times> jsstring list \<Rightarrow> run list \<times> jsstring list"
  and parseNodes ::
  "(jsstring \<Rightarrow> jsstring) \<Rightarrow> (jsstring \<Rightarrow> jsstring) \<Rightarrow> inode list \<Rightarrow> runOptions \<Rightarrow> (jsstring \<Rightarrow> jsstring) \<Rightarrow> bool
     \<Rightarrow> run list \<times> jsstring list \<Rightarrow> run list \<times> jsstring list" where
  \<comment> \<open>\<open>parseNode\<close> is one round of the loop over the child nodes, \<open>parseNodes\<close> the loop
      with \<open>prevNodeIsText\<close>; the state is the array \<open>runs\<close>, which all nested calls share,
      and the list \<open>errors\<close>. A nested call ends like every call, with \<open>trimRuns\<close>; the
      array it returns is not used.\<close>
  "parseNode up lo (TextNode t) baseOptions baseTextTransform prevNodeIsText (runs, errors) =
     (addText prevNodeIsText baseOptions (nodeText baseTextTransform (TextNode t)) runs, errors)"
| "parseNode up lo OtherNode baseOptions baseTextTransform prevNodeIsText (runs, errors) = (runs, errors)"
| "parseNode up lo (Element tag computed kids) baseOptions baseTextTransform prevNodeIsText (runs, errors) =
     (if isText (Element tag computed kids)
      then (addText prevNodeIsText baseOptions (nodeText baseTextTransform (Element tag computed kids)) runs,
            errors)
      else if trim (textContents kids) \<noteq> [] \<and> tag \<in> set inlineTags then
        (let opts = inlineOptions baseOptions computed;
             transform =
               (if textTransform computed \<noteq> [] \<and> textTransform computed \<noteq> js ''none''
                then (\<lambda>t. applyTextTransform up lo t (textTransform computed))
                else baseTextTransform);
             (runs', errors') = parseNodes up lo kids opts transform False
                                  (runs, errors @ marginErrors tag computed)
         in (trimRuns runs', errors'))
      else (runs, errors))"
| "parseNodes up lo [] baseOptions baseTextTransform prevNodeIsText st = st"
| "parseNodes up lo (n # ns) baseOptions baseTextTransform prevNodeIsText st =
     parseNodes up lo ns baseOptions baseTextTransform (isText n)
       (parseNode up lo n baseOptions baseTextTransform prevNodeIsText st)"

definition parseInlineFormatting ::
  "(jsstring \<Rightarrow> jsstring) \<Rightarrow> (jsstring \<Rightarrow> jsstring) \<Rightarrow> inode list \<Rightarrow> runOptions \<Rightarrow> (jsstring \<Rightarrow> jsstring)
     \<Rightarrow> jsstring list \<Rightarrow> run list \<times> jsstring list" where
  \<comment> \<open>a call from outside, with an empty array \<open>runs\<close>, on the child nodes of the element:
      the runs returned and the list \<open>errors\<close> afterwards\<close>
  "parseInlineFormatting up lo kids baseOptions baseTextTransform errors =
     (let (runs, errors') = parseNodes up lo kids baseOptions baseTextTransform False ([], errors)
      in (filter (\<lambda>r. length (run_text r) > 0) (trimRuns runs), errors'))"


text \<open>
  The runs as the claim describes them, before the last step: one run for every
  group of text nodes and line breaks that follow one another among the child nodes of
  one element, with the texts of the group joined and the options of that element; the
  runs of an inline element with text stand where the element stands. A group is as
  long as it can be.
\<close>

function flatRuns ::
  "(jsstring \<Rightarrow> jsstring) \<Rightarrow> (jsstring \<Rightarrow> jsstring) \<Rightarrow> inode list \<Rightarrow> runOptions \<Rightarrow> (jsstring \<Rightarrow> jsstring)
     \<Rightarrow> run list" where
  "flatRuns up lo [] baseOptions baseTextTransform = []"
| "flatRuns up lo (n # ns) baseOptions baseTextTransform =
     (if isText n then
        \<lparr>run_text = concat (map (nodeText baseTextTransform) (n # takeWhile isText ns)),
         options = baseOptions\<rparr>
        # flatRuns up lo (dropWhile isText ns) baseOptions baseTextTransform
      else
        (case n of
           Element tag computed kids \<Rightarrow>
             if trim (textContents kids) \<noteq> [] \<and> tag \<in> set inlineTags
             then flatRuns up lo kids (inlineOptions baseOptions computed)
                    (if textTransform computed \<noteq> [] \<and> textTransform computed \<noteq> js ''none''
                     then (\<lambda>t. applyTextTransform up lo t (textTransform computed))
                     else baseTextTransform)
             else []
         | _ \<Rightarrow> [])
        @ flatRuns up lo ns baseOptions baseTextTransform)"
  by pat_completeness auto
termination
proof (relation "measure (\<lambda>(up, lo, ns, baseOptions, baseTextTransform). size_list size ns)")
  show "wf (measure (\<lambda>(up, lo, ns, baseOptions, baseTextTransform). size_list size ns))"
    by simp
next
  fix up lo :: "jsstring \<Rightarrow> jsstring" and n :: inode and ns :: "inode list"
    and baseOptions :: runOptions and baseTextTransform :: "jsstring \<Rightarrow> jsstring"
  have "size_list size (dropWhile isText ns) \<le> size_list size ns"
    by (induction ns) simp_all
  then show "((up, lo, dropWhile isText ns, baseOptions, baseTextTransform),
              (up, lo, n # ns, baseOptions, baseTextTransform))
             \<in> measure (\<lambda>(up, lo, ns, baseOptions, baseTextTransform). size_list size ns)"
    by simp
qed auto

definition trimmedOf :: "run \<Rightarrow> run \<Rightarrow> bool" where
  \<comment> \<open>the first run is the second one, but for white space taken from the ends of its text\<close>
  "trimmedOf r g =
     (options r = options g
      \<and> (\<exists>a b. run_text g = a @ run_text r @ b \<and> (\<forall>c \<in> set a. isSpace c) \<and> (\<forall>c \<in> set b. isSpace c)))"
section \<open>Automatic repair\<close>

subsection \<open>ErrorFixer and autoFixHtml\<close>

text \<open>
  The file system is a map from paths to contents. \<open>'d\<close> is the document that JSDOM
  parses; \<open>parse\<close> stands for \<open>new JSDOM(content)\<close> and \<open>serialize\<close> for
  \<open>dom.serialize()\<close>. \<open>None\<close> as a result is an exception of the file system.
\<close>

type_synonym files = "jsstring \<rightharpoonup> jsstring"

record 'd errorFixer =
  errorMessage_of :: jsstring
  htmlPath :: jsstring
  htmlContent :: jsstring
  dom :: 'd
  fixed :: bool

definition newErrorFixer :: "(jsstring \<Rightarrow> 'd) \<Rightarrow> files \<Rightarrow> jsstring \<Rightarrow> jsstring \<Rightarrow> 'd errorFixer option" where
  \<comment> \<open>the constructor; \<open>readFileSync\<close> throws when the file is missing\<close>
  "newErrorFixer parse fs errorMessage path =
     (case fs path of
        None \<Rightarrow> None
      | Some content \<Rightarrow>
          Some \<lparr>errorMessage_of = errorMessage, htmlPath = path, htmlContent = content,
                dom = parse content, fixed = False\<rparr>)"

definition copyFileSync :: "files \<Rightarrow> jsstring \<Rightarrow> jsstring \<Rightarrow> files option" where
  "copyFileSync fs src dst = (case fs src of None \<Rightarrow> None | Some content \<Rightarrow> Some (fs(dst \<mapsto> content)))"

definition save :: "('d \<Rightarrow> jsstring) \<Rightarrow> bool \<Rightarrow> 'd errorFixer \<Rightarrow> files \<Rightarrow> (bool \<times> files) option" where
  \<comment> \<open>\<open>ErrorFixer.save(backupOriginal)\<close>: the value returned and the files afterwards\<close>
  "save serialize backupOriginal fixer fs =
     (if \<not> fixed fixer then Some (False, fs)
      else
        (let backupPath = htmlPath fixer @ js ''.backup'';
             backedUp = (if backupOriginal \<and> fs backupPath = None
                         then copyFileSync fs (htmlPath fixer) backupPath else Some fs)
         in (case backedUp of
               None \<Rightarrow> None
             | Some fs1 \<Rightarrow> Some (True, fs1(htmlPath fixer \<mapsto> serialize (dom fixer))))))"

text \<open>
  A fixer class, as \<open>autoFixHtml\<close> uses it: \<open>canFix\<close> reads the error message and the
  content of the file, \<open>fix_dom\<close> (the method \<open>fix\<close>) reads the error message and the document and gives the
  value it returns with the document as it leaves it.
\<close>

record 'd fixerClass =
  canFix :: "jsstring \<Rightarrow> jsstring \<Rightarrow> bool"
  fix_dom :: "jsstring \<Rightarrow> 'd \<Rightarrow> bool \<times> 'd"

fun runFixers ::
  "(jsstring \<Rightarrow> 'd) \<Rightarrow> ('d \<Rightarrow> jsstring) \<Rightarrow> 'd fixerClass list \<Rightarrow> 'd errorFixer \<Rightarrow> bool \<Rightarrow> files
     \<Rightarrow> (bool \<times> files) option" where
  \<comment> \<open>the loop over the fixers. All fixers were built from the same file, and a fixer that
      succeeds hands its serialized document to every later one, so one fixer state is
      threaded through; the flag is \<open>hasAnyFix\<close>.\<close>
  "runFixers parse serialize [] cur hasAnyFix fs = Some (hasAnyFix, fs)"
| "runFixers parse serialize (k # ks) cur hasAnyFix fs =
     (if canFix k (errorMessage_of cur) (htmlContent cur) then
        (let (ok, d) = fix_dom k (errorMessage_of cur) (dom cur)
         in if ok then
              (case save serialize False (cur\<lparr>dom := d, fixed := True\<rparr>) fs of
                 None \<Rightarrow> None
               | Some (saved, fs') \<Rightarrow>
                   (let updatedContent = serialize d
                    in runFixers parse serialize ks
                         (cur\<lparr>htmlContent := updatedContent, dom := parse updatedContent\<rparr>) True fs'))
            else runFixers parse serialize ks cur hasAnyFix fs)
      else runFixers parse serialize ks cur hasAnyFix fs)"

definition autoFixHtml ::
  "(jsstring \<Rightarrow> 'd) \<Rightarrow> ('d \<Rightarrow> jsstring) \<Rightarrow> 'd fixerClass list \<Rightarrow> files \<Rightarrow> jsstring \<Rightarrow> jsstring \<Rightarrow> bool
     \<Rightarrow> (bool \<times> files) option" where
  \<comment> \<open>\<open>autoFixHtml(htmlPath, errorMessage, {backup})\<close>, with the list of fixer classes as a
      parameter. The option \<open>backup\<close> is read and not used: every fixer is saved with
      \<open>save(false)\<close>.\<close>
  "autoFixHtml parse serialize classes fs path errorMessage backup =
     (case newErrorFixer parse fs errorMessage path of
        None \<Rightarrow> None
      | Some fixer \<Rightarrow> runFixers parse serialize classes fixer False fs)"

subsection \<open>CssGradientFixer\<close>

definition str_use_solid_colour :: jsstring where
  \<comment> \<open>"(use a solid colour or a border as the shape)"\<close>
  "str_use_solid_colour = [0x8BF7, 0x4F7F, 0x7528, 0x7EAF, 0x8272, 0x6216, 0x8FB9, 0x6846, 0x4F5C, 0x4E3A, 0x5F62, 0x72B6]"

definition gradientCanFix :: "jsstring \<Rightarrow> jsstring \<Rightarrow> bool" where
  \<comment> \<open>\<open>CssGradientFixer.canFix\<close>, from the error message and the content of the file\<close>
  "gradientCanFix errorMessage content =
     (strIncludes errorMessage str_use_solid_colour
      \<or> strIncludes content (js ''linear-gradient'')
      \<or> strIncludes content (js ''radial-gradient'')
      \<or> strIncludes content (js ''background-image: url(''))"

function replaceAll :: "(jsstring \<Rightarrow> jsstring option) \<Rightarrow> (jsstring \<Rightarrow> jsstring) \<Rightarrow> jsstring \<Rightarrow> jsstring" where
  \<comment> \<open>\<open>s.replace(regex, f)\<close> for a regular expression with the flag \<open>g\<close>: \<open>m\<close> gives the
      text matched at the head of a string. After a match the search goes on behind it;
      after an empty match it moves on by one code unit.\<close>
  "replaceAll m f [] = []"
| "replaceAll m f (c # cs) =
     (case m (c # cs) of
        None \<Rightarrow> c # replaceAll m f cs
      | Some matched \<Rightarrow>
          if matched = [] then f [] @ c # replaceAll m f cs
          else f matched @ replaceAll m f (drop (length matched) (c # cs)))"
  by pat_completeness auto
termination
  by (relation "measure (\<lambda>(m, f, s). length s)") auto

definition matchGradientAt :: "jsstring \<Rightarrow> jsstring \<Rightarrow> jsstring option" where
  \<comment> \<open>\<open>/background:\s*linear-gradient\([^;]+\);/\<close> anchored at the head, and the same with
      \<open>radial-gradient\<close>; \<open>kw\<close> is the function name with its parenthesis. \<open>[^;]+\<close> runs to
      the first semicolon and gives back one code unit, which has to be the closing
      parenthesis.\<close>
  "matchGradientAt kw s =
     (case stripPrefix (js ''background:'') s of
        None \<Rightarrow> None
      | Some r \<Rightarrow>
          (case stripPrefix kw (dropWhile isSpace r) of
             None \<Rightarrow> None
           | Some r1 \<Rightarrow>
               (let t = takeWhile (\<lambda>c. c \<noteq> 59) r1;
                    rest = dropWhile (\<lambda>c. c \<noteq> 59) r1
                in if length t \<ge> 2 \<and> last t = 41 \<and> rest \<noteq> []
                   then Some (take (length s - length rest + 1) s) else None)))"

definition matchHexColorAt :: "jsstring \<Rightarrow> jsstring option" where
  \<comment> \<open>\<open>/#[0-9a-fA-F]{3,6}/\<close> anchored at the head\<close>
  "matchHexColorAt s =
     (case s of
        [] \<Rightarrow> None
      | c # r \<Rightarrow> if c = 35 \<and> length (takeWhile isHexDigit r) \<ge> 3
                 then Some (c # take 6 (takeWhile isHexDigit r)) else None)"

definition matchRgbColorAt :: "jsstring \<Rightarrow> jsstring option" where
  \<comment> \<open>\<open>/rgba?\([^)]+\)/\<close> anchored at the head\<close>
  "matchRgbColorAt s =
     (case stripPrefix (js ''rgb'') s of
        None \<Rightarrow> None
      | Some r \<Rightarrow>
          (case stripPrefix (js ''('') (if r \<noteq> [] \<and> hd r = 97 then tl r else r) of
             None \<Rightarrow> None
           | Some r1 \<Rightarrow>
               (let t = takeWhile (\<lambda>c. c \<noteq> 41) r1;
                    rest = dropWhile (\<lambda>c. c \<noteq> 41) r1
                in if t \<noteq> [] \<and> rest \<noteq> [] then Some (take (length s - length rest + 1) s) else None)))"

definition colorNames :: "jsstring list" where
  "colorNames = map js [''red'', ''blue'', ''green'', ''yellow'', ''purple'', ''orange'', ''pink'',
     ''black'', ''white'', ''gray'', ''grey'']"

definition matchColorNameAt :: "bool \<Rightarrow> jsstring \<Rightarrow> jsstring option" where
  \<comment> \<open>\<open>/\b(red|blue|...|grey)\b/i\<close> anchored at the head of \<open>s\<close>; \<open>prevWord\<close> says whether
      the code unit before the head is a word character\<close>
  "matchColorNameAt prevWord s =
     (if prevWord then None
      else (case filter (\<lambda>n. map lowerAscii (take (length n) s) = n
                              \<and> \<not> (length n < length s \<and> isWordChar (s ! length n))) colorNames of
              [] \<Rightarrow> None
            | n # ns \<Rightarrow> Some (take (length n) s)))"

fun findColorName :: "bool \<Rightarrow> jsstring \<Rightarrow> jsstring option" where
  "findColorName prevWord [] = None"
| "findColorName prevWord (c # cs) =
     (case matchColorNameAt prevWord (c # cs) of
        Some n \<Rightarrow> Some n
      | None \<Rightarrow> findColorName (isWordChar c) cs)"

definition extractFirstColor :: "jsstring \<Rightarrow> jsstring" where
  "extractFirstColor gradientString =
     (case findFirst matchHexColorAt gradientString of
        Some h \<Rightarrow> h
      | None \<Rightarrow>
          (case findFirst matchRgbColorAt gradientString of
             Some c \<Rightarrow> c
           | None \<Rightarrow>
               (case findColorName False gradientString of
                  Some n \<Rightarrow> n
                | None \<Rightarrow> js ''#000000'')))"

definition gradientReplacement :: "jsstring \<Rightarrow> jsstring" where
  "gradientReplacement matched = js ''background: '' @ extractFirstColor matched @ js '';''"

definition fixLinearGradients :: "jsstring \<Rightarrow> jsstring" where
  "fixLinearGradients cssContent =
     replaceAll (matchGradientAt (js ''linear-gradient('')) gradientReplacement cssContent"

definition fixRadialGradients :: "jsstring \<Rightarrow> jsstring" where
  "fixRadialGradients cssContent =
     replaceAll (matchGradientAt (js ''radial-gradient('')) gradientReplacement cssContent"

definition matchBackgroundImageAt :: "jsstring \<Rightarrow> jsstring option" where
  \<comment> \<open>\<open>/background-image:\s*url\([^)]*\);/\<close> anchored at the head\<close>
  "matchBackgroundImageAt s =
     (case stripPrefix (js ''background-image:'') s of
        None \<Rightarrow> None
      | Some r \<Rightarrow>
          (case stripPrefix (js ''url('') (dropWhile isSpace r) of
             None \<Rightarrow> None
           | Some r1 \<Rightarrow>
               (let rest = dropWhile (\<lambda>c. c \<noteq> 41) r1
                in if startsWith rest (js '');'')
                   then Some (take (length s - length rest + 2) s) else None)))"

definition fixBackgroundImages :: "jsstring \<Rightarrow> jsstring" where
  "fixBackgroundImages cssContent =
     replaceAll matchBackgroundImageAt (\<lambda>matched. js ''background-color: #f5f5f5;'') cssContent"

definition fixStyle :: "jsstring \<Rightarrow> jsstring" where
  \<comment> \<open>what \<open>fix\<close> does to the text of one style element\<close>
  "fixStyle cssContent = fixBackgroundImages (fixRadialGradients (fixLinearGradients cssContent))"

definition gradientFix :: "jsstring list \<Rightarrow> bool \<times> jsstring list" where
  \<comment> \<open>\<open>CssGradientFixer.fix\<close> on the texts of the style elements of the document, in
      document order: the value returned (\<open>fixed\<close>) and the texts afterwards. \<open>fixCount\<close>
      counts the elements whose text changed.\<close>
  "gradientFix styles =
     (let fixCount = length (filter (\<lambda>css. fixStyle css \<noteq> css) styles)
      in (fixCount > 0, map fixStyle styles))"

function replacedBy :: "(jsstring \<Rightarrow> jsstring option) \<Rightarrow> jsstring \<Rightarrow> jsstring list" where
  \<comment> \<open>the texts that \<open>replaceAll\<close> finds and replaces, from left to right\<close>
  "replacedBy m [] = []"
| "replacedBy m (c # cs) =
     (case m (c # cs) of
        None \<Rightarrow> replacedBy m cs
      | Some matched \<Rightarrow>
          if matched = [] then [] # replacedBy m cs
          else matched # replacedBy m (drop (length matched) (c # cs)))"
  by pat_completeness auto
termination
  by (relation "measure (\<lambda>(m, s). length s)") auto

definition extractedColors :: "jsstring \<Rightarrow> jsstring list" where
  \<comment> \<open>the colours that \<open>fix\<close> puts into the text of a style element: those of the linear
      gradients of the text, then those of the radial gradients of the text in which the
      linear ones are replaced\<close>
  "extractedColors cssContent =
     map extractFirstColor
       (replacedBy (matchGradientAt (js ''linear-gradient('')) cssContent
        @ replacedBy (matchGradientAt (js ''radial-gradient('')) (fixLinearGradients cssContent))"

definition plainColors :: "jsstring \<Rightarrow> bool" where
  \<comment> \<open>none of these colours contains the name of a gradient function with its parenthesis\<close>
  "plainColors cssContent =
     (\<forall>c \<in> set (extractedColors cssContent).
        \<not> strIncludes c (js ''linear-gradient('') \<and> \<not> strIncludes c (js ''radial-gradient(''))"

subsection \<open>Gradient declarations, segment by segment\<close>

text \<open>
  A match of one of the two gradient expressions ends at the first semicolon behind its
  start. So the text of a style element is read as segments between semicolons:
  \<open>gradSeg kw y\<close> says that the segment \<open>y\<close> followed by a semicolon is a match for the
  function name \<open>kw\<close>; \<open>segFix\<close> is what the replacement does to a segment and \<open>segColor\<close>
  the colour it puts in; \<open>nomatchG\<close> says that the expression matches nowhere in a text.
\<close>

definition gradSeg :: "jsstring \<Rightarrow> jsstring \<Rightarrow> bool" where
  "gradSeg kw y \<longleftrightarrow>
     (\<exists>ws t. y = js ''background:'' @ ws @ kw @ t \<and> (\<forall>c \<in> set ws. isSpace c) \<and> 2 \<le> length t \<and> last t = 41)"

definition keyword :: "jsstring \<Rightarrow> bool" where
  "keyword kw \<longleftrightarrow> kw = js ''linear-gradient('' \<or> kw = js ''radial-gradient(''"

fun segFix :: "jsstring \<Rightarrow> jsstring \<Rightarrow> jsstring" where
  "segFix kw [] = []"
| "segFix kw (c # cs) =
     (if gradSeg kw (c # cs) then js ''background: '' @ extractFirstColor ((c # cs) @ [59])
      else c # segFix kw cs)"

fun segColor :: "jsstring \<Rightarrow> jsstring \<Rightarrow> jsstring list" where
  "segColor kw [] = []"
| "segColor kw (c # cs) =
     (if gradSeg kw (c # cs) then [extractFirstColor ((c # cs) @ [59])] else segColor kw cs)"

definition nomatchG :: "jsstring \<Rightarrow> jsstring \<Rightarrow> bool" where
  "nomatchG kw x \<longleftrightarrow> (\<forall>k. matchGradientAt kw (drop k x) = None)"
subsection \<open>TextElementBorderFixer\<close>

text \<open>
  A node of the parsed document: a text node, or an element with its tag name in
  lower case, its attributes in order and its children. The fixer reads and writes the
  texts of the style elements and rewrites the tree of the other elements; the model
  keeps the two apart, the texts in document order. So it covers the documents whose
  style elements do not lie inside an element that the fixer wraps.
\<close>

datatype dnode = DText jsstring | DElement jsstring "(jsstring \<times> jsstring) list" "dnode list"

record document =
  styles :: "jsstring list"
  tree :: "dnode list"

definition str_text_element :: jsstring where
  \<comment> \<open>"(text element) <"\<close>
  "str_text_element = [0x6587, 0x672C, 0x5143, 0x7D20] @ js '' <''"

definition str_has :: jsstring where
  \<comment> \<open>"> (has) "\<close>
  "str_has = js ''> '' @ [0x5B58, 0x5728] @ js '' ''"

definition styleTypes :: "jsstring list" where
  \<comment> \<open>"(border)", "(background)", "(shadow)"\<close>
  "styleTypes = [[0x8FB9, 0x6846], [0x80CC, 0x666F], [0x9634, 0x5F71]]"

definition matchTextElementAt :: "jsstring \<Rightarrow> (jsstring \<times> jsstring \<times> jsstring) option" where
  \<comment> \<open>the regular expression of \<open>canFix\<close>, "(text element) <(\w+)> (has)
      ((border)|(background)|(shadow))", anchored at the head: the text matched, the tag
      name and the kind of style\<close>
  "matchTextElementAt s =
     (case stripPrefix str_text_element s of
        None \<Rightarrow> None
      | Some r \<Rightarrow>
          (let name = takeWhile isWordChar r
           in if name = [] then None
              else (case stripPrefix str_has (dropWhile isWordChar r) of
                      None \<Rightarrow> None
                    | Some r1 \<Rightarrow>
                        (case filter (\<lambda>k. startsWith r1 k) styleTypes of
                           [] \<Rightarrow> None
                         | k # ks \<Rightarrow> Some (take (length s - length r1 + length k) s, name, k)))))"

function matchAllTextElements :: "jsstring \<Rightarrow> (jsstring \<times> jsstring) list" where
  \<comment> \<open>\<open>errorMessage.matchAll(...)\<close>: the captures of all matches, from left to right\<close>
  "matchAllTextElements [] = []"
| "matchAllTextElements (c # cs) =
     (case matchTextElementAt (c # cs) of
        None \<Rightarrow> matchAllTextElements cs
      | Some (matched, name, kind) \<Rightarrow>
          if matched = [] then (name, kind) # matchAllTextElements cs
          else (name, kind) # matchAllTextElements (drop (length matched) (c # cs)))"
  by pat_completeness auto
termination
  by (relation "measure length") auto

definition borderCanFix :: "jsstring \<Rightarrow> (jsstring list \<times> jsstring) option" where
  \<comment> \<open>\<open>TextElementBorderFixer.canFix\<close>: \<open>None\<close> is \<open>false\<close>; otherwise \<open>tagNames\<close>, without
      repetitions in the order of first occurrence, and \<open>styleType\<close>\<close>
  "borderCanFix errorMessage =
     (case matchAllTextElements errorMessage of
        [] \<Rightarrow> None
      | m # ms \<Rightarrow> Some (rev (remdups (rev (map fst (m # ms)))), snd m))"

definition containerStyleProps :: "jsstring list" where
  "containerStyleProps = map js [''background'', ''background-color'', ''background-image'',
     ''background-size'', ''background-position'', ''background-repeat'', ''background-attachment'',
     ''border'', ''border-top'', ''border-right'', ''border-bottom'', ''border-left'', ''border-width'',
     ''border-style'', ''border-color'', ''border-radius'', ''box-shadow'']"

definition isContainerStyle :: "jsstring \<Rightarrow> bool" where
  \<comment> \<open>for a declaration: its property is one of the container properties, or starts with
      one of them and a hyphen\<close>
  "isContainerStyle line =
     (let prop = trim (hd (splitOn 58 line))
      in \<exists>cp \<in> set containerStyleProps. prop = cp \<or> startsWith prop (cp @ js ''-''))"

definition regexPlain :: "jsstring \<Rightarrow> bool" where
  \<comment> \<open>no code unit of the name is a syntax character of regular expressions\<close>
  "regexPlain name = (\<forall>c \<in> set name. c \<notin> {36, 40, 41, 42, 43, 46, 63, 91, 92, 93, 94, 123, 124, 125})"

text \<open>
  \<open>separateStyles\<close> and \<open>updateStyles\<close> put the class name as it is, without escaping, into
  the source of a regular expression: \<open>\.\<close>, the class name, \<open>\s*\{([^}]+)\}\<close>, with the flag
  \<open>s\<close>. So a dot in the class name stands for any code unit, and \<open>*\<close>, \<open>+\<close> and \<open>?\<close> repeat
  what is before them, greedily, or lazily when a \<open>?\<close> follows. The model reads these
  class names as the regular expression does. For a class name with another syntax
  character (a group, a class, braces, an alternative, an anchor, an escape) the result
  is \<open>UnsupportedPattern\<close>: what the code does with it is outside the model.
\<close>

datatype atom = Lit nat | AnyChar

datatype quant = Once | Opt bool | Star bool | Plus bool

datatype stage = Bare | Repeated | Lazy

datatype fixError = InvalidSelector | InvalidRegExp | UnsupportedPattern

definition makeLazy :: "quant \<Rightarrow> quant" where
  "makeLazy q = (case q of Once \<Rightarrow> Once | Opt g \<Rightarrow> Opt False | Star g \<Rightarrow> Star False | Plus g \<Rightarrow> Plus False)"

fun compileFrom :: "atom \<Rightarrow> quant \<Rightarrow> stage \<Rightarrow> jsstring \<Rightarrow> fixError + (atom \<times> quant) list" where
  \<comment> \<open>the terms of the pattern: \<open>a\<close> is the term read last, \<open>q\<close> its quantifier so far. A
      quantifier with nothing to repeat is a syntax error of \<open>new RegExp\<close>.\<close>
  "compileFrom a q st [] = Inr [(a, q)]"
| "compileFrom a q st (c # cs) =
     (if c = 42 \<or> c = 43 \<or> c = 63 then
        (if st = Bare
         then compileFrom a (if c = 42 then Star True else if c = 43 then Plus True else Opt True) Repeated cs
         else if st = Repeated \<and> c = 63 then compileFrom a (makeLazy q) Lazy cs
         else Inl InvalidRegExp)
      else if c \<in> {36, 40, 41, 91, 92, 93, 94, 123, 124, 125} then Inl UnsupportedPattern
      else (case compileFrom (if c = 46 then AnyChar else Lit c) Once Bare cs of
              Inl e \<Rightarrow> Inl e
            | Inr items \<Rightarrow> Inr ((a, q) # items)))"

definition compileClassRegex :: "jsstring \<Rightarrow> fixError + (atom \<times> quant) list" where
  \<comment> \<open>the terms of \<open>\.\<close> followed by the class name\<close>
  "compileClassRegex className = compileFrom (Lit 46) Once Bare className"

fun okAtom :: "atom \<Rightarrow> nat \<Rightarrow> bool" where
  "okAtom (Lit c) x = (x = c)"
| "okAtom AnyChar x = True"

function matchItems :: "(atom \<times> quant) list \<Rightarrow> (jsstring \<Rightarrow> 'a option) \<Rightarrow> jsstring \<Rightarrow> 'a option" where
  \<comment> \<open>the backtracking search of the terms at the head of a string; \<open>k\<close> matches what
      follows the terms in the pattern. A greedy quantifier tries one more repetition
      first, a lazy one tries to go on first.\<close>
  "matchItems [] k s = k s"
| "matchItems ((a, Once) # r) k s =
     (case s of [] \<Rightarrow> None | c # cs \<Rightarrow> if okAtom a c then matchItems r k cs else None)"
| "matchItems ((a, Opt g) # r) k s =
     (let one = (case s of [] \<Rightarrow> None | c # cs \<Rightarrow> if okAtom a c then matchItems r k cs else None);
          none = matchItems r k s
      in if g then (case one of Some x \<Rightarrow> Some x | None \<Rightarrow> none)
         else (case none of Some x \<Rightarrow> Some x | None \<Rightarrow> one))"
| "matchItems ((a, Star g) # r) k s =
     (let again = (case s of [] \<Rightarrow> None
                   | c # cs \<Rightarrow> if okAtom a c then matchItems ((a, Star g) # r) k cs else None);
          none = matchItems r k s
      in if g then (case again of Some x \<Rightarrow> Some x | None \<Rightarrow> none)
         else (case none of Some x \<Rightarrow> Some x | None \<Rightarrow> again))"
| "matchItems ((a, Plus g) # r) k s =
     (case s of [] \<Rightarrow> None | c # cs \<Rightarrow> if okAtom a c then matchItems ((a, Star g) # r) k cs else None)"
  by pat_completeness auto
termination
  by (relation "measure (\<lambda>(items, k, s). length items + length s)") auto

definition ruleTail :: "jsstring \<Rightarrow> (nat \<times> jsstring) option" where
  \<comment> \<open>\<open>\s*\{([^}]+)\}\<close> at the head: the length of what is left from the closing brace on,
      and the capture. Each of the two repetitions can only stop where it stops first, so
      nothing is tried again here.\<close>
  "ruleTail r =
     (case stripPrefix (js ''{'') (dropWhile isSpace r) of
        None \<Rightarrow> None
      | Some r1 \<Rightarrow>
          (let block = takeWhile (\<lambda>c. c \<noteq> 125) r1;
               rest = dropWhile (\<lambda>c. c \<noteq> 125) r1
           in if block \<noteq> [] \<and> rest \<noteq> [] then Some (length rest, block) else None))"

definition classRegexAt :: "(atom \<times> quant) list \<Rightarrow> jsstring \<Rightarrow> (jsstring \<times> jsstring) option" where
  \<comment> \<open>the regular expression anchored at the head: the text matched and the capture\<close>
  "classRegexAt items s =
     (case matchItems items ruleTail s of
        None \<Rightarrow> None
      | Some (n, block) \<Rightarrow> Some (take (length s - n + 1) s, block))"

definition classRuleAt :: "jsstring \<Rightarrow> jsstring \<Rightarrow> (jsstring \<times> jsstring) option" where
  \<comment> \<open>a rule for the class, read as text at the head of a string: a dot, the class name,
      white space, and a block in braces that is not empty; the text of the rule and the
      block\<close>
  "classRuleAt className s =
     (case stripPrefix (js ''.'' @ className) s of
        None \<Rightarrow> None
      | Some r \<Rightarrow>
          (case stripPrefix (js ''{'') (dropWhile isSpace r) of
             None \<Rightarrow> None
           | Some r1 \<Rightarrow>
               (let block = takeWhile (\<lambda>c. c \<noteq> 125) r1;
                    rest = dropWhile (\<lambda>c. c \<noteq> 125) r1
                in if block \<noteq> [] \<and> rest \<noteq> []
                   then Some (take (length s - length rest + 1) s, block) else None)))"

definition styleLines :: "jsstring \<Rightarrow> jsstring list" where
  \<comment> \<open>the declarations of a block: split at semicolons, trimmed, the empty ones left out\<close>
  "styleLines block = filter (\<lambda>l. l \<noteq> []) (map trim (splitOn 59 block))"

definition hasContainerRule :: "jsstring list \<Rightarrow> jsstring \<Rightarrow> bool" where
  \<comment> \<open>some style text holds a rule for the class, and the first such rule of that text has
      a container declaration\<close>
  "hasContainerRule ss className =
     (\<exists>css \<in> set ss.
        (case findFirst (classRuleAt className) css of
           None \<Rightarrow> False
         | Some (matched, block) \<Rightarrow> \<exists>line \<in> set (styleLines block). isContainerStyle line))"

definition str_line_sep :: jsstring where
  \<comment> \<open>a semicolon, a line feed and twelve spaces\<close>
  "str_line_sep = [59, 10] @ replicate 12 32"

definition separateStyles :: "jsstring \<Rightarrow> jsstring \<Rightarrow> fixError + (jsstring \<times> jsstring)" where
  \<comment> \<open>\<open>textStyles\<close> and \<open>containerStyles\<close>\<close>
  "separateStyles cssContent className =
     (case compileClassRegex className of
        Inl e \<Rightarrow> Inl e
      | Inr items \<Rightarrow>
          (case findFirst (classRegexAt items) cssContent of
             None \<Rightarrow> Inr ([], [])
           | Some (matched, block) \<Rightarrow>
               Inr (joinWith str_line_sep (filter (\<lambda>l. \<not> isContainerStyle l) (styleLines block)),
                    joinWith str_line_sep (filter isContainerStyle (styleLines block)))))"

fun replaceFirst :: "(jsstring \<Rightarrow> jsstring option) \<Rightarrow> jsstring \<Rightarrow> jsstring \<Rightarrow> jsstring" where
  \<comment> \<open>\<open>s.replace(regex, text)\<close> without the flag \<open>g\<close>. The text is put in as it is: a
      dollar sign in it, which \<open>replace\<close> reads as a pattern, is outside the model.\<close>
  "replaceFirst m new [] = (case m [] of None \<Rightarrow> [] | Some matched \<Rightarrow> new)"
| "replaceFirst m new (c # cs) =
     (case m (c # cs) of
        None \<Rightarrow> c # replaceFirst m new cs
      | Some matched \<Rightarrow> new @ drop (length matched) (c # cs))"

definition updateStyles ::
  "jsstring \<Rightarrow> jsstring \<Rightarrow> jsstring \<Rightarrow> jsstring \<Rightarrow> jsstring \<Rightarrow> fixError + jsstring" where
  \<comment> \<open>the new text of the style element. The group around \<open>\.\<close> and the class name in the
      regular expression of \<open>updateStyles\<close> changes nothing for the class names of the
      model.\<close>
  "updateStyles oldContent className textStyles containerStyles tagName =
     (let newRules =
            (if containerStyles \<noteq> []
             then replicate 8 32 @ js ''.'' @ className @ js '' {'' @ [10] @ replicate 12 32
                  @ containerStyles @ js '';'' @ [10] @ replicate 8 32 @ js ''}'' @ [10]
             else [])
            @ (if textStyles \<noteq> []
               then replicate 8 32 @ js ''.'' @ className @ js '' '' @ tagName @ js '' {'' @ [10]
                    @ replicate 12 32 @ textStyles @ js '';'' @ [10] @ replicate 8 32 @ js ''}''
               else [])
      in (case compileClassRegex className of
            Inl e \<Rightarrow> Inl e
          | Inr items \<Rightarrow>
              Inr (replaceFirst (\<lambda>s. map_option fst (classRegexAt items s)) newRules oldContent)))"

definition findStyleForClass :: "jsstring list \<Rightarrow> jsstring \<Rightarrow> nat option" where
  \<comment> \<open>the first style element whose text includes a dot and the class name, by its index\<close>
  "findStyleForClass ss className =
     (case filter (\<lambda>i. strIncludes (ss ! i) (js ''.'' @ className)) [0 ..< length ss] of
        [] \<Rightarrow> None
      | i # others \<Rightarrow> Some i)"

definition classNameOf :: "dnode \<Rightarrow> jsstring" where
  \<comment> \<open>\<open>element.className\<close>: the class attribute, empty without one\<close>
  "classNameOf n =
     (case n of
        DText t \<Rightarrow> []
      | DElement tag attrs kids \<Rightarrow> (case map_of attrs (js ''class'') of None \<Rightarrow> [] | Some v \<Rightarrow> v))"

definition wrapElement :: "dnode \<Rightarrow> jsstring \<Rightarrow> jsstring \<Rightarrow> dnode" where
  \<comment> \<open>the wrapper that takes the place of the element: a \<open>div\<close> with the class, around a new
      element with the content and the other attributes of the old one\<close>
  "wrapElement element className tagName =
     (case element of
        DText t \<Rightarrow> DText t
      | DElement tag attrs kids \<Rightarrow>
          DElement (js ''div'') [(js ''class'', className)]
            [DElement (map lowerAscii tagName) (filter (\<lambda>(name, v). name \<noteq> js ''class'') attrs) kids])"

fun elementPaths :: "jsstring \<Rightarrow> nat \<Rightarrow> dnode list \<Rightarrow> nat list list" where
  \<comment> \<open>\<open>querySelectorAll(tag)\<close> on a list of sibling nodes whose first has the index \<open>i\<close>: the
      elements with that tag in document order, each by its path of child indices\<close>
  "elementPaths tag i [] = []"
| "elementPaths tag i (DText t # ns) = elementPaths tag (Suc i) ns"
| "elementPaths tag i (DElement t attrs kids # ns) =
     (if t = tag then [[i]] else [])
     @ map (\<lambda>p. i # p) (elementPaths tag 0 kids)
     @ elementPaths tag (Suc i) ns"

fun nodeAt :: "dnode list \<Rightarrow> nat list \<Rightarrow> dnode option" where
  "nodeAt ns [] = None"
| "nodeAt ns [i] = (if i < length ns then Some (ns ! i) else None)"
| "nodeAt ns (i # j # p) =
     (if i < length ns
      then (case ns ! i of DText t \<Rightarrow> None | DElement tag attrs kids \<Rightarrow> nodeAt kids (j # p))
      else None)"

fun replaceAt :: "dnode list \<Rightarrow> nat list \<Rightarrow> dnode \<Rightarrow> dnode list" where
  \<comment> \<open>\<open>parentNode.replaceChild(new, old)\<close> for the node at a path\<close>
  "replaceAt ns [] new = ns"
| "replaceAt ns [i] new = (if i < length ns then ns[i := new] else ns)"
| "replaceAt ns (i # j # p) new =
     (if i < length ns
      then (case ns ! i of
              DText t \<Rightarrow> ns
            | DElement tag attrs kids \<Rightarrow> ns[i := DElement tag attrs (replaceAt kids (j # p) new)])
      else ns)"

record fixState =
  st_styles :: "jsstring list"
  st_tree :: "dnode list"
  st_wrapped :: "nat list list"
  st_fixCount :: nat

definition fixElement :: "jsstring \<Rightarrow> dnode list \<Rightarrow> fixState \<Rightarrow> nat list \<Rightarrow> fixError + fixState" where
  \<comment> \<open>one round of the inner loop of \<open>fix\<close>, for the element at path \<open>q\<close> of the list that
      \<open>querySelectorAll\<close> gave for the tree \<open>snapshot\<close>. The list is not live: an element
      inside an element wrapped before is no longer in the document, and wrapping it
      changes the removed part only. \<open>Inl\<close> is an exception, which ends \<open>fix\<close>.\<close>
  "fixElement tagName snapshot st q =
     (case nodeAt snapshot q of
        None \<Rightarrow> Inr st
      | Some element \<Rightarrow>
          (let className = classNameOf element
           in if className = [] then Inr st
              else (case findStyleForClass (st_styles st) className of
                      None \<Rightarrow> Inr st
                    | Some i \<Rightarrow>
                        (case separateStyles (st_styles st ! i) className of
                           Inl e \<Rightarrow> Inl e
                         | Inr (textStyles, containerStyles) \<Rightarrow>
                             if trim containerStyles = [] then Inr st
                             else (case updateStyles (st_styles st ! i) className textStyles
                                          containerStyles tagName of
                                     Inl e \<Rightarrow> Inl e
                                   | Inr newContent \<Rightarrow>
                                       Inr (st\<lparr>st_styles := (st_styles st)[i := newContent],
                                              st_tree := (if \<exists>p \<in> set (st_wrapped st). length p < length q \<and> take (length p) q = p
                                                          then st_tree st
                                                          else replaceAt (st_tree st) q (wrapElement element className tagName)),
                                              st_wrapped := q # st_wrapped st,
                                              st_fixCount := st_fixCount st + 1\<rparr>))))))"

fun fixElements :: "jsstring \<Rightarrow> dnode list \<Rightarrow> fixState \<Rightarrow> nat list list \<Rightarrow> fixError + fixState" where
  \<comment> \<open>the inner loop\<close>
  "fixElements tagName snapshot st [] = Inr st"
| "fixElements tagName snapshot st (q # qs) =
     (case fixElement tagName snapshot st q of
        Inl e \<Rightarrow> Inl e
      | Inr st' \<Rightarrow> fixElements tagName snapshot st' qs)"

definition fixTag :: "jsstring \<Rightarrow> document \<Rightarrow> fixError + (document \<times> nat)" where
  \<comment> \<open>one round of the outer loop, for one tag name: the document afterwards and \<open>fixCount\<close>\<close>
  "fixTag tagName doc =
     (case fixElements tagName (tree doc)
             \<lparr>st_styles = styles doc, st_tree = tree doc, st_wrapped = [], st_fixCount = 0\<rparr>
             (elementPaths (map lowerAscii tagName) 0 (tree doc)) of
        Inl e \<Rightarrow> Inl e
      | Inr st \<Rightarrow> Inr (\<lparr>styles = st_styles st, tree = st_tree st\<rparr>, st_fixCount st))"

fun fixTags ::
  "jsstring list \<Rightarrow> document \<Rightarrow> nat \<Rightarrow> jsstring list \<Rightarrow> fixError + (document \<times> nat \<times> jsstring list)" where
  \<comment> \<open>the outer loop with \<open>totalFixCount\<close> and \<open>fixedTags\<close>. A name that starts with a
      digit is no selector: \<open>querySelectorAll\<close> throws.\<close>
  "fixTags [] doc totalFixCount fixedTags = Inr (doc, totalFixCount, fixedTags)"
| "fixTags (tagName # rest) doc totalFixCount fixedTags =
     (if tagName \<noteq> [] \<and> isDigit (hd tagName) then Inl InvalidSelector
      else
        (case fixTag tagName doc of
           Inl e \<Rightarrow> Inl e
         | Inr (doc', fixCount) \<Rightarrow>
             if fixCount > 0
             then fixTags rest doc' (totalFixCount + fixCount)
                    (fixedTags @ [natToString fixCount @ [0x4E2A] @ js ''<'' @ tagName @ js ''>''])
             else fixTags rest doc' totalFixCount fixedTags))"

definition borderFix :: "jsstring list \<Rightarrow> jsstring \<Rightarrow> document \<Rightarrow> fixError + (bool \<times> jsstring \<times> document)" where
  \<comment> \<open>\<open>TextElementBorderFixer.fix\<close> after \<open>canFix\<close> has set \<open>tagNames\<close> and \<open>styleType\<close>: the
      value returned, \<open>fixDescription\<close> and the document. The description says "(moved the)
      <styleType> (style of the elements) <fixedTags> (to an outer) <div>".\<close>
  "borderFix tagNames styleType doc =
     (case fixTags tagNames doc 0 [] of
        Inl e \<Rightarrow> Inl e
      | Inr (doc', totalFixCount, fixedTags) \<Rightarrow>
          if totalFixCount > 0
          then Inr (True,
                 [0x5C06] @ joinWith [0x3001] fixedTags @ [0x5143, 0x7D20, 0x7684] @ styleType
                 @ [0x6837, 0x5F0F, 0x79FB, 0x81F3, 0x5916, 0x5C42] @ js ''<div>'',
                 doc')
          else Inr (False, [], doc'))"
section \<open>Properties\<close>

subsection \<open>Evaluation of the string and number primitives\<close>

lemmas js_eval = js_def stripPrefix_def trimStart_def trimEnd_def trim_def isSpace_def isDigit_def
  isWordChar_def digitsVal_def signed_def pow10_def exponentPart_def parseFloat_def Let_def



subsection \<open>IEEE doubles\<close>

lemma pow2_pos: "0 < pow2 e"
  by (simp add: pow2_def)

lemma pow2_Suc: "pow2 (e + 1) = 2 * pow2 e"
proof (cases "0 \<le> e")
  case True
  then show ?thesis by (simp add: pow2_def nat_add_distrib)
next
  case False
  then obtain n where n: "nat (- e) = Suc n" by (cases "nat (- e)") auto
  then have m: "nat (- (e + 1)) = n" by linarith
  show ?thesis
  proof (cases "0 \<le> e + 1")
    case True
    then have "e = - 1" "n = 0" using False n by linarith+
    then show ?thesis by (simp add: pow2_def)
  next
    case False
    then show ?thesis using n m by (simp add: pow2_def)
  qed
qed

lemma expDown_eq:
  "pow2 e \<le> x \<Longrightarrow> x < pow2 (e + 1) \<Longrightarrow> - int n \<le> e \<Longrightarrow> e < 0 \<Longrightarrow> expDown n x = e"
proof (induction n arbitrary: x e)
  case 0
  then show ?case by simp
next
  case (Suc n)
  have "pow2 (e + 1) \<le> 1" using Suc.prems(4) by (simp add: pow2_def)
  then have x1: "x < 1" using Suc.prems(2) by simp
  show ?case
  proof (cases "e = - 1")
    case True
    then have "1 \<le> 2 * x" using Suc.prems(1) by (simp add: pow2_def)
    then have "expDown n (2 * x) = 0" by (cases n) simp_all
    then show ?thesis using x1 True by simp
  next
    case False
    have "pow2 (e + 1 + 1) = 2 * pow2 (e + 1)" by (rule pow2_Suc)
    then have "pow2 (e + 1) \<le> 2 * x" "2 * x < pow2 (e + 1 + 1)"
      using Suc.prems(1,2) pow2_Suc [of e] by linarith+
    moreover have "- int n \<le> e + 1" "e + 1 < 0" using Suc.prems(3,4) False by simp_all
    ultimately have "expDown n (2 * x) = e + 1" by (rule Suc.IH)
    then show ?thesis using x1 by simp
  qed
qed

lemma expUp_eq:
  "pow2 e \<le> x \<Longrightarrow> x < pow2 (e + 1) \<Longrightarrow> 0 \<le> e \<Longrightarrow> e \<le> int n \<Longrightarrow> expUp n x = e"
proof (induction n arbitrary: x e)
  case 0
  then show ?case by simp
next
  case (Suc n)
  show ?case
  proof (cases "e = 0")
    case True
    then have "x < 2" using Suc.prems(2) by (simp add: pow2_def)
    then show ?thesis using True by simp
  next
    case False
    then have e: "0 \<le> e - 1" "e - 1 \<le> int n" using Suc.prems(3,4) by simp_all
    have p: "pow2 e = 2 * pow2 (e - 1)" "pow2 (e + 1) = 2 * pow2 (e - 1 + 1)"
      using pow2_Suc [of "e - 1"] pow2_Suc [of e] by simp_all
    have "1 \<le> pow2 (e - 1)" using e(1) by (simp add: pow2_def)
    then have x2: "2 \<le> x" using Suc.prems(1) p(1) by simp
    have "pow2 (e - 1) \<le> x / 2" "x / 2 < pow2 (e - 1 + 1)"
      using Suc.prems(1,2) p by simp_all
    then have "expUp n (x / 2) = e - 1" using e by (rule Suc.IH)
    then show ?thesis using x2 by simp
  qed
qed

lemma exponent_eq:
  assumes "pow2 e \<le> x" "x < pow2 (e + 1)" "- 1022 \<le> e" "e \<le> 1023"
  shows "exponent x = e"
proof (cases "e < 0")
  case True
  then have "pow2 (e + 1) \<le> 1" by (simp add: pow2_def)
  then have "x < 1" using assms(2) by simp
  moreover have "expDown 1022 x = e" using assms True by (intro expDown_eq) simp_all
  ultimately show ?thesis by (simp add: exponent_def)
next
  case False
  then have "1 \<le> pow2 e" by (simp add: pow2_def)
  then have "\<not> x < 1" using assms(1) by simp
  moreover have "expUp 1023 x = e" using assms False by (intro expUp_eq) simp_all
  ultimately show ?thesis by (simp add: exponent_def)
qed

lemma binary64_eq:
  assumes "pow2 e \<le> \<bar>x\<bar>" "\<bar>x\<bar> < pow2 (e + 1)" "- 1022 \<le> e" "e \<le> 1023"
  shows "binary64 x = of_int (roundEven (x / pow2 (e - 52))) * pow2 (e - 52)"
proof -
  have "x \<noteq> 0" using assms(1) pow2_pos [of e] by auto
  then show ?thesis using exponent_eq [OF assms] by (simp add: binary64_def Let_def)
qed

lemma roundEven_near: "\<bar>x - of_int m\<bar> < 1 / 2 \<Longrightarrow> roundEven x = m"
proof -
  assume a: "\<bar>x - of_int m\<bar> < 1 / 2"
  show ?thesis
  proof (cases "of_int m \<le> x")
    case True
    then have "\<lfloor>x\<rfloor> = m" using a by (simp add: floor_eq_iff abs_if split: if_splits)
    then show ?thesis using a True by (simp add: roundEven_def)
  next
    case False
    then have f: "\<lfloor>x\<rfloor> = m - 1" using a by (simp add: floor_eq_iff abs_if split: if_splits)
    then have "1 / 2 < x - of_int \<lfloor>x\<rfloor>" using a False by (simp add: abs_if split: if_splits)
    then show ?thesis using f by (simp add: roundEven_def)
  qed
qed

lemma roundEven_of_int: "roundEven (of_int m) = m"
  using roundEven_near [of "of_int m" m] by simp

lemma binary64_exact:
  assumes "pow2 e \<le> \<bar>x\<bar>" "\<bar>x\<bar> < pow2 (e + 1)" "- 1022 \<le> e" "e \<le> 1023"
    and "x / pow2 (e - 52) = of_int m"
  shows "binary64 x = x"
proof -
  have "binary64 x = of_int m * pow2 (e - 52)"
    using binary64_eq [OF assms(1-4)] assms(5) roundEven_of_int by simp
  also have "\<dots> = x" using assms(5) pow2_pos [of "e - 52"] by (simp add: field_simps)
  finally show ?thesis .
qed







subsection \<open>Overflow check\<close>

text \<open>
  Claim C7. \<open>getBodyDimensions\<close> reports an error exactly when, on some axis, the
  scrollable size exceeds the declared size of the body by more than one pixel. The one
  message then names each such axis with the amount in pixels beyond the tolerance, the
  horizontal one first, and ends with the note on the 48px bottom margin exactly when the
  vertical axis overflows.
\<close>

theorem getBodyDimensions_overflow:
  fixes width height scrollWidth scrollHeight :: rat
  defines "ox \<equiv> scrollWidth - width > 1" and "oy \<equiv> scrollHeight - height > 1"
  shows "(getBodyDimensions numToString width height scrollWidth scrollHeight = [] \<longleftrightarrow> \<not> ox \<and> \<not> oy)
    \<and> (ox \<or> oy \<longrightarrow>
         getBodyDimensions numToString width height scrollWidth scrollHeight =
           [str_overflow_head @ numToString width @ js ''x'' @ numToString height @ str_overflow_mid
            @ joinWith str_and
                ((if ox then [numToString (scrollWidth - width - 1) @ str_horizontal] else [])
                 @ (if oy then [numToString (scrollHeight - height - 1) @ str_vertical] else []))
            @ (if oy then str_reminder else []) @ js '' ''])"
  by (auto simp: getBodyDimensions_def ox_def oy_def PT_PER_PX_def Let_def max_def)

theorem getBodyDimensions_overflow_witness:
  "getBodyDimensions (\<lambda>x. natToString (nat \<lfloor>x\<rfloor>)) 1280 720 1280 730 =
     [str_overflow_head @ js ''1280x720'' @ str_overflow_mid @ js ''9'' @ str_vertical @ str_reminder @ js '' '']
   \<and> getBodyDimensions (\<lambda>x. natToString (nat \<lfloor>x\<rfloor>)) 1280 720 1300 721 =
     [str_overflow_head @ js ''1280x720'' @ str_overflow_mid @ js ''19'' @ str_horizontal @ js '' '']
   \<and> getBodyDimensions (\<lambda>x. natToString (nat \<lfloor>x\<rfloor>)) 1280 720 1281 721 = []"
  using getBodyDimensions_overflow [of "\<lambda>x. natToString (nat \<lfloor>x\<rfloor>)" 1280 720 1280 730]
    getBodyDimensions_overflow [of "\<lambda>x. natToString (nat \<lfloor>x\<rfloor>)" 1280 720 1300 721]
    getBodyDimensions_overflow [of "\<lambda>x. natToString (nat \<lfloor>x\<rfloor>)" 1280 720 1281 721]
  by (simp add: js_def)

subsection \<open>The aggregate failure of html2pptx\<close>

lemma numbered_length: "length (numbered i es) = length es"
  by (induction es arbitrary: i) simp_all

lemma numbered_nth:
  "k < length es \<Longrightarrow> numbered i es ! k = js ''  '' @ natToString (i + k + 1) @ js ''. '' @ es ! k"
proof (induction es arbitrary: i k)
  case Nil
  then show ?case by simp
next
  case (Cons e es)
  show ?case
  proof (cases k)
    case 0
    then show ?thesis by simp
  next
    case (Suc j)
    with Cons.prems have "j < length es" by simp
    from Cons.IH [OF this, of "Suc i"] Suc show ?thesis by simp
  qed
qed

text \<open>
  Claim C1, as the code has it. A run of \<open>html2pptx\<close> that accumulates at least one
  validation error adds no slide to the presentation and throws one error. Its message
  is built from all accumulated errors in order (those of the overflow check, of the
  layout check, of the bottom-margin check, then of the extraction): the one error
  itself when there is exactly one, and otherwise a header followed by one line per
  error, numbered from 1. The \<open>catch\<close> block then puts the name of the HTML file and a
  colon in front of that message, unless the message already starts with the file name.
\<close>

theorem html2pptx_errors_raised:
  assumes "validationErrors = bodyErrors @ dimensionErrors @ textBoxPositionErrors @ slideErrors"
    and "validationErrors \<noteq> []"
  defines "m \<equiv> (case validationErrors of [e] \<Rightarrow> e
                  | _ \<Rightarrow> str_multi_header @ joinWith [10] (numbered 0 validationErrors))"
  shows "html2pptx addSlide emit htmlFile bodyErrors dimensionErrors textBoxPositionErrors slideErrors slide pres
           = (Inl (if startsWith m htmlFile then m else htmlFile @ js '': '' @ m), pres)
       \<and> length (numbered 0 validationErrors) = length validationErrors
       \<and> (\<forall>k < length validationErrors.
             numbered 0 validationErrors ! k = js ''  '' @ natToString (k + 1) @ js ''. '' @ validationErrors ! k)"
proof -
  have "validationMessage validationErrors = m"
  proof (cases validationErrors)
    case Nil
    with assms(2) show ?thesis by simp
  next
    case (Cons e es)
    then show ?thesis
      by (cases es) (simp_all add: validationMessage_def m_def)
  qed
  then have "html2pptx addSlide emit htmlFile bodyErrors dimensionErrors textBoxPositionErrors slideErrors slide pres
           = (Inl (if startsWith m htmlFile then m else htmlFile @ js '': '' @ m), pres)"
    using assms(1,2) by (simp add: html2pptx_def rethrow_def Let_def)
  then show ?thesis
    by (simp add: numbered_length numbered_nth)
qed

theorem html2pptx_errors_raised_witness:
  "html2pptx (\<lambda>n. (n, Suc n)) id (js ''s.html'') [js ''A''] [] [js ''B''] [js ''C''] None (0::nat)
     = (Inl (js ''s.html: '' @ str_multi_header @ js ''  1. A'' @ [10] @ js ''  2. B'' @ [10] @ js ''  3. C''), 0)
   \<and> html2pptx (\<lambda>n. (n, Suc n)) id (js ''s.html'') [] [] [] [js ''s.html: E''] None (0::nat)
     = (Inl (js ''s.html: E''), 0)"
  using html2pptx_errors_raised [of "[js ''A'', js ''B'', js ''C'']" "[js ''A'']" "[]" "[js ''B'']" "[js ''C'']"
      "\<lambda>n. (n, Suc n)" id "js ''s.html''" None "0::nat"]
    html2pptx_errors_raised [of "[js ''s.html: E'']" "[]" "[]" "[]" "[js ''s.html: E'']"
      "\<lambda>n. (n, Suc n)" id "js ''s.html''" None "0::nat"]
  by (simp add: js_def str_multi_header_def)

text \<open>
  Claim C1 as stated fails: with the single error \<open>E\<close> for the file \<open>slide.html\<close> the
  message of the failure is \<open>slide.html: E\<close>, not \<open>E\<close>.
\<close>

theorem html2pptx_single_error_prefixed:
  "html2pptx (\<lambda>n. (n, Suc n)) id (js ''slide.html'') [] [] [] [js ''E''] None (0::nat)
     = (Inl (js ''slide.html: E''), 0)
   \<and> fst (html2pptx (\<lambda>n. (n, Suc n)) id (js ''slide.html'') [] [] [] [js ''E''] None (0::nat))
     \<noteq> Inl (js ''E'')"
  by (simp add: html2pptx_def rethrow_def validationMessage_def js_def)

subsection \<open>Rotation and corner radius\<close>












text \<open>
  Claim C8. For a computed \<open>border-radius\<close> whose leading number is \<open>v\<close>: a percentage
  of 50 or more gives the factor 1 on a box of any size; a smaller percentage gives that
  share of the shorter side, converted from pixels to inches; a radius in points is
  divided by 72 and any other absolute radius by 96. In particular \<open>50%\<close> gives 1 on
  every box and \<open>25%\<close> on a box of 200 by 100 pixels gives \<open>0.25 * (100 / 96)\<close>.
\<close>

theorem rectRadius_conversion:
  assumes "parseFloat radius = Num v"
  shows "(strIncludes radius (js ''%'') \<and> 50 \<le> v \<longrightarrow> rectRadius radius w h = Num 1)
       \<and> (strIncludes radius (js ''%'') \<and> v < 50 \<and> v \<noteq> 0 \<longrightarrow>
            rectRadius radius w h = Num ((v / 100) * (min w h / 96)))
       \<and> (\<not> strIncludes radius (js ''%'') \<and> strIncludes radius (js ''pt'') \<longrightarrow>
            rectRadius radius w h = Num (v / 72))
       \<and> (\<not> strIncludes radius (js ''%'') \<and> \<not> strIncludes radius (js ''pt'') \<longrightarrow>
            rectRadius radius w h = Num (v / 96))
       \<and> rectRadius (js ''50%'') w h = Num 1
       \<and> rectRadius (js ''25%'') 200 100 = Num (0.25 * (100 / 96))"
proof -
  have p50: "parseFloat (js ''50%'') = Num 50" and p25: "parseFloat (js ''25%'') = Num 25"
    by (simp_all add: js_eval)
  have i50: "strIncludes (js ''50%'') (js ''%'')" and i25: "strIncludes (js ''25%'') (js ''%'')"
    by (simp_all add: js_def)
  have "rectRadius (js ''50%'') w h = Num 1"
    by (simp add: rectRadius_def p50 i50)
  moreover have "rectRadius (js ''25%'') 200 100 = Num (0.25 * (100 / 96))"
    by (simp add: rectRadius_def p25 i25 pxToInch_def PX_PER_IN_def)
  ultimately show ?thesis
    using assms by (auto simp: rectRadius_def pxToInch_def PX_PER_IN_def)
qed

theorem rectRadius_conversion_witness:
  "rectRadius (js ''75%'') 30 40 = Num 1 \<and> rectRadius (js ''10%'') 30 48 = Num (1 / 32)
   \<and> rectRadius (js ''36pt'') 30 40 = Num (1 / 2) \<and> rectRadius (js ''24px'') 30 40 = Num (1 / 4)"
proof -
  have p: "parseFloat (js ''75%'') = Num 75" "parseFloat (js ''10%'') = Num 10"
    "parseFloat (js ''36pt'') = Num 36" "parseFloat (js ''24px'') = Num 24"
    by (simp_all add: js_eval)
  have i: "strIncludes (js ''75%'') (js ''%'')" "strIncludes (js ''10%'') (js ''%'')"
    "\<not> strIncludes (js ''36pt'') (js ''%'')" "strIncludes (js ''36pt'') (js ''pt'')"
    "\<not> strIncludes (js ''24px'') (js ''%'')" "\<not> strIncludes (js ''24px'') (js ''pt'')"
    by (simp_all add: js_def)
  show ?thesis
    using rectRadius_conversion [OF p(1), of 30 40] rectRadius_conversion [OF p(2), of 30 48]
      rectRadius_conversion [OF p(3), of 30 40] rectRadius_conversion [OF p(4), of 30 40] i
    by simp
qed

subsection \<open>Colours\<close>

lemmas color_eval = digits1_def commaSpace_def threeChannels_def matchRgbAt_def matchAlphaAt_def
  hexDigit_def padStart2_def rgbToHex_def extractAlpha_def mathRound_def floor_eq_iff

lemma extractAlpha_found:
  assumes "findFirst matchAlphaAt s = Some a" "parseFloat a = Num v"
  shows "extractAlpha s = Some (Num (of_int \<lfloor>binary64 (binary64 (1 - binary64 v) * 100) + 1 / 2\<rfloor>))"
  using assms by (simp add: extractAlpha_def mathRound_def Let_def)

lemma roundEven_half: "roundEven (of_int m + 1 / 2) = (if even m then m else m + 1)"
proof -
  have "\<lfloor>(of_int m + 1 / 2 :: rat)\<rfloor> = m" by (simp add: floor_eq_iff)
  then show ?thesis by (simp add: roundEven_def Let_def)
qed

lemma binary64_alpha:
  "binary64 0 = 0" "binary64 (1 - 0) = 1" "binary64 (1 * 100) = 100"
  "binary64 (1 / 4) = 1 / 4" "binary64 (1 - 1 / 4) = 3 / 4" "binary64 (3 / 4 * 100) = 75"
  "binary64 (1 / 2) = 1 / 2" "binary64 (1 - 1 / 2) = 1 / 2" "binary64 (1 / 2 * 100) = 50"
  using binary64_exact [of 0 1 "2 ^ 52"] binary64_exact [of 6 100 "100 * 2 ^ 46"]
    binary64_exact [of "- 2" "1 / 4" "2 ^ 52"] binary64_exact [of "- 1" "3 / 4" "3 * 2 ^ 51"]
    binary64_exact [of 6 75 "75 * 2 ^ 46"] binary64_exact [of "- 1" "1 / 2" "2 ^ 52"]
    binary64_exact [of 5 50 "50 * 2 ^ 47"]
  by (simp_all add: pow2_def binary64_def)

lemma binary64_0435:
  "binary64 (87 / 200) = 7836263351624663 / 18014398509481984"
  "binary64 (1 - 7836263351624663 / 18014398509481984) = 1272266894732165 / 2251799813685248"
  "binary64 (1272266894732165 / 2251799813685248 * 100) = 7951668092076031 / 140737488355328"
proof -
  have "roundEven ((87 / 200) / pow2 (- 2 - 52)) = 7836263351624663"
    by (rule roundEven_near) (simp add: pow2_def)
  then show "binary64 (87 / 200) = 7836263351624663 / 18014398509481984"
    using binary64_eq [of "- 2" "87 / 200"] by (simp add: pow2_def)
  have "roundEven (10178135157857321 / 2) = 5089067578928660"
    using roundEven_half [of 5089067578928660] by simp
  then have "roundEven ((1 - 7836263351624663 / 18014398509481984) / pow2 (- 1 - 52)) = 5089067578928660"
    by (simp add: pow2_def)
  then show "binary64 (1 - 7836263351624663 / 18014398509481984) = 1272266894732165 / 2251799813685248"
    using binary64_eq [of "- 1" "1 - 7836263351624663 / 18014398509481984"] by (simp add: pow2_def)
  have "roundEven ((1272266894732165 / 2251799813685248 * 100) / pow2 (5 - 52)) = 7951668092076031"
    by (rule roundEven_near) (simp add: pow2_def)
  then show "binary64 (1272266894732165 / 2251799813685248 * 100) = 7951668092076031 / 140737488355328"
    using binary64_eq [of 5 "1272266894732165 / 2251799813685248 * 100"] by (simp add: pow2_def)
qed

lemma alpha_found:
  "findFirst matchAlphaAt (js ''rgba(0, 0, 0, 0)'') = Some (js ''0'')" "parseFloat (js ''0'') = Num 0"
  "findFirst matchAlphaAt (js ''rgba(10, 20, 30, 0.25)'') = Some (js ''0.25'')"
  "parseFloat (js ''0.25'') = Num (1 / 4)"
  "findFirst matchAlphaAt (js ''rgba(1, 2, 3, 0.435)'') = Some (js ''0.435'')"
  "parseFloat (js ''0.435'') = Num (87 / 200)"
  "findFirst matchAlphaAt (js ''rgba(255, 0, 0, 0.5)'') = Some (js ''0.5'')"
  "parseFloat (js ''0.5'') = Num (1 / 2)"
  by (simp_all add: digits1_def commaSpace_def threeChannels_def matchAlphaAt_def js_eval)

text \<open>
  Claim C4, as the code has it. \<open>rgbToHex\<close> gives white, \<open>FFFFFF\<close>, for the computed
  colour \<open>rgba(0, 0, 0, 0)\<close> and for \<open>transparent\<close>. \<open>extractAlpha\<close> gives no transparency
  for \<open>transparent\<close>, but 100 for \<open>rgba(0, 0, 0, 0)\<close>. The colour
  \<open>rgba(10, 20, 30, 0.25)\<close> gives the hexadecimal digits \<open>0a141e\<close>, in lower case, with
  transparency 75. Whenever an alpha channel is found whose text denotes \<open>v\<close>, a number
  within the range of doubles, the transparency is \<open>(1 - alpha) * 100\<close> rounded to the nearest integer, where \<open>alpha\<close> is
  the double nearest to \<open>v\<close> and the difference and the product are rounded to doubles:
  for the alpha channel \<open>0.435\<close> the product is the double just below 56.5, and the
  transparency is 56.
\<close>

theorem color_extraction:
  "rgbToHex (js ''rgba(0, 0, 0, 0)'') = js ''FFFFFF'' \<and> rgbToHex (js ''transparent'') = js ''FFFFFF''
   \<and> extractAlpha (js ''transparent'') = None
   \<and> extractAlpha (js ''rgba(0, 0, 0, 0)'') = Some (Num 100)
   \<and> rgbToHex (js ''rgba(10, 20, 30, 0.25)'') = js ''0a141e''
   \<and> extractAlpha (js ''rgba(10, 20, 30, 0.25)'') = Some (Num 75)
   \<and> extractAlpha (js ''rgba(1, 2, 3, 0.435)'') = Some (Num 56)
   \<and> (\<forall>s a v. findFirst matchAlphaAt s = Some a \<longrightarrow> parseFloat a = Num v \<longrightarrow> v < pow2 1000 \<longrightarrow>
         extractAlpha s = Some (Num (of_int \<lfloor>binary64 (binary64 (1 - binary64 v) * 100) + 1 / 2\<rfloor>)))"
proof -
  have "rgbToHex (js ''rgba(0, 0, 0, 0)'') = js ''FFFFFF''" "rgbToHex (js ''transparent'') = js ''FFFFFF''"
    by (simp_all add: rgbToHex_def)
  moreover have "extractAlpha (js ''transparent'') = None"
    by (simp add: color_eval js_eval)
  moreover have "extractAlpha (js ''rgba(0, 0, 0, 0)'') = Some (Num 100)"
    unfolding extractAlpha_found [OF alpha_found(1,2)] binary64_alpha by (simp add: floor_eq_iff)
  moreover have "extractAlpha (js ''rgba(10, 20, 30, 0.25)'') = Some (Num 75)"
    unfolding extractAlpha_found [OF alpha_found(3,4)] binary64_alpha by (simp add: floor_eq_iff)
  moreover have "extractAlpha (js ''rgba(1, 2, 3, 0.435)'') = Some (Num 56)"
    unfolding extractAlpha_found [OF alpha_found(5,6)] binary64_0435 by (simp add: floor_eq_iff)
  moreover have "rgbToHex (js ''rgba(10, 20, 30, 0.25)'') = js ''0a141e''"
    by (simp add: color_eval js_eval)
  moreover have "\<forall>s a v. findFirst matchAlphaAt s = Some a \<longrightarrow> parseFloat a = Num v \<longrightarrow> v < pow2 1000 \<longrightarrow>
         extractAlpha s = Some (Num (of_int \<lfloor>binary64 (binary64 (1 - binary64 v) * 100) + 1 / 2\<rfloor>))"
    using extractAlpha_found by blast
  ultimately show ?thesis by blast
qed

theorem color_extraction_witness:
  "extractAlpha (js ''rgba(255, 0, 0, 0.5)'') = Some (Num 50)"
proof -
  have "extractAlpha (js ''rgba(255, 0, 0, 0.5)'')
          = Some (Num (of_int \<lfloor>binary64 (binary64 (1 - binary64 (1 / 2)) * 100) + 1 / 2\<rfloor>))"
  proof -
    have "(1 / 2 :: rat) < pow2 1000" by (simp add: pow2_def)
    then show ?thesis using color_extraction alpha_found(7,8) by blast
  qed
  then show ?thesis unfolding binary64_alpha by (simp add: floor_eq_iff)
qed

text \<open>
  Claim C4 as stated fails in two places: the digits for \<open>rgba(10, 20, 30, 0.25)\<close> are
  not the upper-case \<open>0A141E\<close>, and \<open>rgba(0, 0, 0, 0)\<close> does get a transparency value.
  The string without spaces, which no browser computes, is not white either.
\<close>

theorem color_extraction_as_stated_fails:
  "rgbToHex (js ''rgba(10, 20, 30, 0.25)'') \<noteq> js ''0A141E''
   \<and> extractAlpha (js ''rgba(0, 0, 0, 0)'') \<noteq> None
   \<and> rgbToHex (js ''rgba(0,0,0,0)'') = js ''000000''"
proof -
  have "extractAlpha (js ''rgba(0, 0, 0, 0)'') \<noteq> None"
    unfolding extractAlpha_found [OF alpha_found(1,2)] by simp
  moreover have "rgbToHex (js ''rgba(10, 20, 30, 0.25)'') \<noteq> js ''0A141E''"
    "rgbToHex (js ''rgba(0,0,0,0)'') = js ''000000''"
    by (simp_all add: color_eval js_eval)
  ultimately show ?thesis by blast
qed

subsection \<open>Containers: shapes and border lines\<close>

lemma positive_numOr0: "positive n \<longleftrightarrow> numOr0 n > 0"
  by (cases n) (simp_all add: positive_def numOr0_def)

lemma numOr0_pxToPoints: "numOr0 (pxToPoints s) = numOr0 (parseFloat s) * (3 / 4)"
  by (cases "parseFloat s") (simp_all add: pxToPoints_def numOr0_def PT_PER_PX_def)

lemma pxToPoints_Num: "parseFloat s = Num v \<Longrightarrow> pxToPoints s = Num (v * (3 / 4))"
  by (simp add: pxToPoints_def PT_PER_PX_def)

text \<open>
  Claim C3, as the code has it. Take a \<open>div\<close> that is not a placeholder, has no
  computed background image and has a rendered area that is not zero; let \<open>bt\<close>, \<open>br\<close>,
  \<open>bb\<close>, \<open>bl\<close> be its four border widths in pixels. If the four are equal and positive,
  the extraction emits exactly one shape and no line, and the stroke of the shape is the
  computed \<open>border-width\<close> in points, which is the common width times 0.75 when the
  shorthand agrees with the four sides. If some width is positive and the four are not
  all equal, it emits one shape without stroke exactly when the \<open>div\<close> has a background
  colour, followed by one line per side of positive width, in the order top, right,
  bottom, left; each line has the width of its side in points and lies inside the box at
  half that width, in inches, from its edge.
\<close>

theorem visitDiv_borders:
  fixes r :: rect and computed :: divStyle and parseBoxShadow :: "jsstring \<Rightarrow> 'sh option"
    and isPlaceholder :: bool and elId :: jsstring and n :: nat and childTexts :: "jsstring list"
  assumes "\<not> isPlaceholder"
    and "backgroundImage computed = [] \<or> backgroundImage computed = js ''none''"
    and "rect_width r > 0" and "rect_height r > 0"
  defines "bt \<equiv> numOr0 (parseFloat (borderTopWidth computed))"
    and "br \<equiv> numOr0 (parseFloat (borderRightWidth computed))"
    and "bb \<equiv> numOr0 (parseFloat (borderBottomWidth computed))"
    and "bl \<equiv> numOr0 (parseFloat (borderLeftWidth computed))"
    and "x \<equiv> rect_left r / 96" and "y \<equiv> rect_top r / 96"
    and "w \<equiv> rect_width r / 96" and "h \<equiv> rect_height r / 96"
    and "hasBg \<equiv> backgroundColor computed \<noteq> [] \<and> backgroundColor computed \<noteq> js ''rgba(0, 0, 0, 0)''"
    and "out \<equiv> pushedElements (visitDiv parseBoxShadow isPlaceholder elId n r computed childTexts)"
  defines "shape \<equiv> \<lambda>stroke. Shape (Position x y w h)
            (if hasBg then Some (rgbToHex (backgroundColor computed)) else None)
            (if hasBg then extractAlpha (backgroundColor computed) else None)
            stroke
            (rectRadius (borderRadius computed) (rect_width r) (rect_height r))
            (parseBoxShadow (boxShadow computed))"
  shows "(bt > 0 \<and> br = bt \<and> bb = bt \<and> bl = bt \<longrightarrow>
           out = [shape (Some (rgbToHex (borderColor computed), pxToPoints (borderWidth computed)))]
           \<and> (parseFloat (borderWidth computed) = Num bt \<longrightarrow>
                out = [shape (Some (rgbToHex (borderColor computed), Num (bt * (3 / 4))))]))
       \<and> ((bt > 0 \<or> br > 0 \<or> bb > 0 \<or> bl > 0) \<and> \<not> (br = bt \<and> bb = bt \<and> bl = bt) \<longrightarrow>
           out = (if hasBg then [shape None] else [])
             @ (if bt > 0 then [Line x (y + bt * (3 / 4) / 72 / 2) (x + w) (y + bt * (3 / 4) / 72 / 2)
                                  (bt * (3 / 4)) (rgbToHex (borderTopColor computed))] else [])
             @ (if br > 0 then [Line (x + w - br * (3 / 4) / 72 / 2) y (x + w - br * (3 / 4) / 72 / 2) (y + h)
                                  (br * (3 / 4)) (rgbToHex (borderRightColor computed))] else [])
             @ (if bb > 0 then [Line x (y + h - bb * (3 / 4) / 72 / 2) (x + w) (y + h - bb * (3 / 4) / 72 / 2)
                                  (bb * (3 / 4)) (rgbToHex (borderBottomColor computed))] else [])
             @ (if bl > 0 then [Line (x + bl * (3 / 4) / 72 / 2) y (x + bl * (3 / 4) / 72 / 2) (y + h)
                                  (bl * (3 / 4)) (rgbToHex (borderLeftColor computed))] else []))"
proof -
  define L :: "'sh element list" where "L =
      (if bt > 0 then [Line x (y + bt * (3 / 4) / 72 / 2) (x + w) (y + bt * (3 / 4) / 72 / 2)
                                  (bt * (3 / 4)) (rgbToHex (borderTopColor computed))] else [])
             @ (if br > 0 then [Line (x + w - br * (3 / 4) / 72 / 2) y (x + w - br * (3 / 4) / 72 / 2) (y + h)
                                  (br * (3 / 4)) (rgbToHex (borderRightColor computed))] else [])
             @ (if bb > 0 then [Line x (y + h - bb * (3 / 4) / 72 / 2) (x + w) (y + h - bb * (3 / 4) / 72 / 2)
                                  (bb * (3 / 4)) (rgbToHex (borderBottomColor computed))] else [])
             @ (if bl > 0 then [Line (x + bl * (3 / 4) / 72 / 2) y (x + bl * (3 / 4) / 72 / 2) (y + h)
                                  (bl * (3 / 4)) (rgbToHex (borderLeftColor computed))] else [])"
  have lines: "borderLines computed r = L"
    unfolding borderLines_def Let_def positive_numOr0 numOr0_pxToPoints pxToInch_def PX_PER_IN_def
      bt_def br_def bb_def bl_def x_def y_def w_def h_def L_def
    by simp
  have uni: "out = [shape (Some (rgbToHex (borderColor computed), pxToPoints (borderWidth computed)))]"
    if "bt > 0" "br = bt" "bb = bt" "bl = bt"
    using that assms(1-4)
    unfolding out_def shape_def visitDiv_def Let_def pxToInch_def PX_PER_IN_def hasBg_def
      bt_def br_def bb_def bl_def x_def y_def w_def h_def
    by auto
  have non: "out = (if hasBg then [shape None] else []) @ L"
    if "bt > 0 \<or> br > 0 \<or> bb > 0 \<or> bl > 0" "\<not> (br = bt \<and> bb = bt \<and> bl = bt)"
  proof -
    have "out = (if hasBg then [shape None] else []) @ borderLines computed r"
      using that assms(1-4)
      unfolding out_def shape_def visitDiv_def Let_def pxToInch_def PX_PER_IN_def hasBg_def
        bt_def br_def bb_def bl_def x_def y_def w_def h_def
      by auto
    then show ?thesis by (simp only: lines)
  qed
  show ?thesis
    using uni non unfolding L_def by (auto simp: pxToPoints_Num)
qed

lemma parseFloat_px_examples: "parseFloat (js ''4px'') = Num 4" "parseFloat (js ''0px'') = Num 0" "parseFloat (js ''2px'') = Num 2"
  by (simp_all add: js_eval)

theorem visitDiv_borders_witness:
  "pushedElements (visitDiv (\<lambda>s. None :: unit option) False [] 0 (Rect 96 96 192 96)
      \<lparr>backgroundColor = js ''rgba(0, 0, 0, 0)'', backgroundImage = js ''none'',
       borderTopWidth = js ''4px'', borderRightWidth = js ''0px'',
       borderBottomWidth = js ''4px'', borderLeftWidth = js ''0px'',
       borderTopColor = js ''rgb(255, 0, 0)'', borderRightColor = js ''rgb(0, 0, 0)'',
       borderBottomColor = js ''rgb(0, 0, 255)'', borderLeftColor = js ''rgb(0, 0, 0)'',
       borderWidth = js ''4px 0px'', borderColor = js ''rgb(255, 0, 0) rgb(0, 0, 0) rgb(0, 0, 255)'',
       borderRadius = js ''0px'', boxShadow = js ''none''\<rparr> [])
     = [Line 1 (1 + 1 / 48) 3 (1 + 1 / 48) 3 (js ''ff0000''), Line 1 (2 - 1 / 48) 3 (2 - 1 / 48) 3 (js ''0000ff'')]
   \<and> pushedElements (visitDiv (\<lambda>s. None :: unit option) False [] 0 (Rect 96 96 192 96)
      \<lparr>backgroundColor = js ''rgba(0, 0, 0, 0)'', backgroundImage = js ''none'',
       borderTopWidth = js ''2px'', borderRightWidth = js ''2px'',
       borderBottomWidth = js ''2px'', borderLeftWidth = js ''2px'',
       borderTopColor = js ''rgb(255, 0, 0)'', borderRightColor = js ''rgb(255, 0, 0)'',
       borderBottomColor = js ''rgb(255, 0, 0)'', borderLeftColor = js ''rgb(255, 0, 0)'',
       borderWidth = js ''2px'', borderColor = js ''rgb(255, 0, 0)'',
       borderRadius = js ''0px'', boxShadow = js ''none''\<rparr> [])
     = [Shape (Position 1 1 2 1) None None (Some (js ''ff0000'', Num (3 / 2))) (Num 0) None]"
proof -
  have hex: "rgbToHex (js ''rgb(255, 0, 0)'') = js ''ff0000''" "rgbToHex (js ''rgb(0, 0, 255)'') = js ''0000ff''"
    by (simp_all add: color_eval js_eval)
  have rad: "rectRadius (js ''0px'') 192 96 = Num 0"
    by (simp add: rectRadius_def parseFloat_px_examples)
  have ne: "js ''none'' \<noteq> []" "js ''rgba(0, 0, 0, 0)'' \<noteq> []"
    by (simp_all add: js_def)
  show ?thesis
    using visitDiv_borders [where isPlaceholder = False and r = "Rect 96 96 192 96"
        and parseBoxShadow = "\<lambda>s. None :: unit option" and elId = "[]" and n = 0 and childTexts = "[]"
        and computed = "\<lparr>backgroundColor = js ''rgba(0, 0, 0, 0)'', backgroundImage = js ''none'',
       borderTopWidth = js ''4px'', borderRightWidth = js ''0px'',
       borderBottomWidth = js ''4px'', borderLeftWidth = js ''0px'',
       borderTopColor = js ''rgb(255, 0, 0)'', borderRightColor = js ''rgb(0, 0, 0)'',
       borderBottomColor = js ''rgb(0, 0, 255)'', borderLeftColor = js ''rgb(0, 0, 0)'',
       borderWidth = js ''4px 0px'', borderColor = js ''rgb(255, 0, 0) rgb(0, 0, 0) rgb(0, 0, 255)'',
       borderRadius = js ''0px'', boxShadow = js ''none''\<rparr>"]
      visitDiv_borders [where isPlaceholder = False and r = "Rect 96 96 192 96"
        and parseBoxShadow = "\<lambda>s. None :: unit option" and elId = "[]" and n = 0 and childTexts = "[]"
        and computed = "\<lparr>backgroundColor = js ''rgba(0, 0, 0, 0)'', backgroundImage = js ''none'',
       borderTopWidth = js ''2px'', borderRightWidth = js ''2px'',
       borderBottomWidth = js ''2px'', borderLeftWidth = js ''2px'',
       borderTopColor = js ''rgb(255, 0, 0)'', borderRightColor = js ''rgb(255, 0, 0)'',
       borderBottomColor = js ''rgb(255, 0, 0)'', borderLeftColor = js ''rgb(255, 0, 0)'',
       borderWidth = js ''2px'', borderColor = js ''rgb(255, 0, 0)'',
       borderRadius = js ''0px'', boxShadow = js ''none''\<rparr>"]
    by (simp add: parseFloat_px_examples hex rad ne numOr0_def pxToPoints_def PT_PER_PX_def)
qed

text \<open>
  Claim C3 as stated fails for a \<open>div\<close> with a uniform border of 2 pixels and a
  rendered area that is not zero, when it has a background image or is a placeholder:
  no shape is emitted.
\<close>

theorem visitDiv_background_image_emits_nothing:
  "pushedElements (visitDiv (\<lambda>s. None :: unit option) False [] 0 (Rect 96 96 192 96)
      \<lparr>backgroundColor = js ''rgb(255, 255, 255)'', backgroundImage = js ''url(x.png)'',
       borderTopWidth = js ''2px'', borderRightWidth = js ''2px'',
       borderBottomWidth = js ''2px'', borderLeftWidth = js ''2px'',
       borderTopColor = js ''rgb(255, 0, 0)'', borderRightColor = js ''rgb(255, 0, 0)'',
       borderBottomColor = js ''rgb(255, 0, 0)'', borderLeftColor = js ''rgb(255, 0, 0)'',
       borderWidth = js ''2px'', borderColor = js ''rgb(255, 0, 0)'',
       borderRadius = js ''0px'', boxShadow = js ''none''\<rparr> []) = []
   \<and> pushedElements (visitDiv (\<lambda>s. None :: unit option) True [] 0 (Rect 96 96 192 96)
      \<lparr>backgroundColor = js ''rgb(255, 255, 255)'', backgroundImage = js ''none'',
       borderTopWidth = js ''2px'', borderRightWidth = js ''2px'',
       borderBottomWidth = js ''2px'', borderLeftWidth = js ''2px'',
       borderTopColor = js ''rgb(255, 0, 0)'', borderRightColor = js ''rgb(255, 0, 0)'',
       borderBottomColor = js ''rgb(255, 0, 0)'', borderLeftColor = js ''rgb(255, 0, 0)'',
       borderWidth = js ''2px'', borderColor = js ''rgb(255, 0, 0)'',
       borderRadius = js ''0px'', boxShadow = js ''none''\<rparr> []) = []"
  by (simp add: visitDiv_def js_def)

subsection \<open>Inline formatting: text runs\<close>

lemma parseNode_text:
  "isText n \<Longrightarrow> parseNode up lo n base tt prev (runs, errs) = (addText prev base (nodeText tt n) runs, errs)"
  by (cases n) (simp_all add: isText_def)

lemma text_siblings_joined:
  "\<forall>n \<in> set ts. isText n \<Longrightarrow> runs \<noteq> [] \<Longrightarrow>
   parseNodes up lo (ts @ rest) base tt True (runs, errs) =
     parseNodes up lo rest base tt True
       (butlast runs @ [(last runs)\<lparr>run_text := run_text (last runs) @ concat (map (nodeText tt) ts)\<rparr>], errs)"
proof (induction ts arbitrary: runs)
  case Nil
  then show ?case by simp
next
  case (Cons n ts)
  have n: "isText n" and ts: "\<forall>n \<in> set ts. isText n"
    using Cons.prems(1) by simp_all
  let ?r = "butlast runs @ [(last runs)\<lparr>run_text := run_text (last runs) @ nodeText tt n\<rparr>]"
  have step: "parseNode up lo n base tt True (runs, errs) = (?r, errs)"
    using Cons.prems(2) by (simp add: parseNode_text [OF n] addText_def)
  have "?r \<noteq> []" by simp
  from Cons.IH [OF ts this] step n show ?case by simp
qed

lemma text_group:
  assumes "ts \<noteq> []" "\<forall>n \<in> set ts. isText n"
  shows "parseNodes up lo (ts @ rest) base tt False (runs, errs) =
           parseNodes up lo rest base tt True
             (runs @ [\<lparr>run_text = concat (map (nodeText tt) ts), options = base\<rparr>], errs)"
proof -
  from assms(1) obtain n ts' where c: "ts = n # ts'" by (cases ts) auto
  have n: "isText n" and ts': "\<forall>n \<in> set ts'. isText n" using assms(2) c by simp_all
  have "parseNode up lo n base tt False (runs, errs) =
          (runs @ [\<lparr>run_text = nodeText tt n, options = base\<rparr>], errs)"
    by (simp add: parseNode_text [OF n] addText_def)
  then show ?thesis
    using text_siblings_joined [OF ts', of "runs @ [\<lparr>run_text = nodeText tt n, options = base\<rparr>]"] n c
    by simp
qed

lemma flag_without_effect:
  "\<not> isText n \<Longrightarrow> parseNode up lo n base tt prev st = parseNode up lo n base tt False st"
  by (cases n; cases st) (simp_all add: isText_def)

lemma after_element:
  assumes "\<not> isText n"
  shows "parseNodes up lo (n # rest) base tt prev st =
           parseNodes up lo rest base tt False (parseNode up lo n base tt False st)"
  using assms flag_without_effect [OF assms, of up lo base tt prev st] by simp

lemma after_group:
  assumes "rest = [] \<or> \<not> isText (hd rest)"
  shows "parseNodes up lo rest base tt True st = parseNodes up lo rest base tt False st"
proof (cases rest)
  case Nil
  then show ?thesis by simp
next
  case (Cons n rest')
  then have "\<not> isText n" using assms by simp
  then show ?thesis using Cons after_element by metis
qed

lemma trimRuns_length: "length (trimRuns rs) = length rs"
  by (simp add: trimRuns_def Let_def)

lemma trimStart_no_space: "trimStart s = [] \<or> \<not> isSpace (hd (trimStart s))"
  unfolding trimStart_def by (metis hd_dropWhile)

lemma trimEnd_no_space: "trimEnd s = [] \<or> \<not> isSpace (last (trimEnd s))"
  unfolding trimEnd_def by (metis hd_dropWhile last_rev rev_is_Nil_conv rev_rev_ident)

lemma trimEnd_split: "\<exists>sp. s = trimEnd s @ sp \<and> (\<forall>c \<in> set sp. isSpace c)"
proof -
  have "rev s = takeWhile isSpace (rev s) @ dropWhile isSpace (rev s)" by simp
  then have "s = rev (dropWhile isSpace (rev s)) @ rev (takeWhile isSpace (rev s))"
    by (metis rev_append rev_rev_ident)
  moreover have "\<forall>c \<in> set (rev (takeWhile isSpace (rev s))). isSpace c"
    by (auto dest: set_takeWhileD)
  ultimately show ?thesis unfolding trimEnd_def by blast
qed

lemma trimEnd_head:
  assumes "s = [] \<or> \<not> isSpace (hd s)"
  shows "trimEnd s = [] \<or> \<not> isSpace (hd (trimEnd s))"
proof (cases "trimEnd s = []")
  case True
  then show ?thesis by simp
next
  case False
  obtain sp where "s = trimEnd s @ sp" using trimEnd_split by blast
  then have "hd s = hd (trimEnd s)" using False by (metis hd_append2)
  moreover have "s \<noteq> []" using False by (auto simp: trimEnd_def)
  ultimately show ?thesis using assms by auto
qed

lemma trimRuns_ends:
  assumes "rs \<noteq> []"
  shows "run_text (hd (trimRuns rs)) = [] \<or> \<not> isSpace (hd (run_text (hd (trimRuns rs))))"
    and "run_text (last (trimRuns rs)) = [] \<or> \<not> isSpace (last (run_text (last (trimRuns rs))))"
    and "0 < i \<Longrightarrow> i < length rs - 1 \<Longrightarrow> trimRuns rs ! i = rs ! i"
proof -
  define r1 where "r1 = rs[0 := (rs ! 0)\<lparr>run_text := trimStart (run_text (rs ! 0))\<rparr>]"
  define n where "n = length r1 - 1"
  have t: "trimRuns rs = r1[n := (r1 ! n)\<lparr>run_text := trimEnd (run_text (r1 ! n))\<rparr>]"
    using assms by (simp add: trimRuns_def r1_def n_def Let_def)
  have len: "length r1 = length rs" "r1 \<noteq> []" "n < length r1"
    using assms by (simp_all add: r1_def n_def)
  have h1: "run_text (r1 ! 0) = trimStart (run_text (rs ! 0))"
    using assms by (simp add: r1_def)
  show "run_text (hd (trimRuns rs)) = [] \<or> \<not> isSpace (hd (run_text (hd (trimRuns rs))))"
  proof (cases "n = 0")
    case True
    then have "run_text (hd (trimRuns rs)) = trimEnd (trimStart (run_text (rs ! 0)))"
      using len h1 by (simp add: t hd_conv_nth)
    then show ?thesis
      using trimEnd_head [OF trimStart_no_space] by simp
  next
    case False
    then have "hd (trimRuns rs) = r1 ! 0"
      using len by (simp add: t hd_conv_nth)
    then show ?thesis using h1 trimStart_no_space by simp
  qed
  have "last (trimRuns rs) = (r1 ! n)\<lparr>run_text := trimEnd (run_text (r1 ! n))\<rparr>"
    using len by (simp add: t last_conv_nth n_def)
  then show "run_text (last (trimRuns rs)) = [] \<or> \<not> isSpace (last (run_text (last (trimRuns rs))))"
    using trimEnd_no_space by simp
  show "trimRuns rs ! i = rs ! i" if "0 < i" "i < length rs - 1"
    using that len by (simp add: t r1_def n_def)
qed
lemma trimmedOf_refl: "trimmedOf r r"
proof -
  have "run_text r = [] @ run_text r @ []" by simp
  then show ?thesis unfolding trimmedOf_def by (metis empty_iff list.set(1))
qed

lemma trimmedOf_trimStart:
  assumes "trimmedOf r g"
  shows "trimmedOf (r\<lparr>run_text := trimStart (run_text r)\<rparr>) g"
proof -
  from assms obtain a b where g: "run_text g = a @ run_text r @ b"
    "\<forall>c \<in> set a. isSpace c" "\<forall>c \<in> set b. isSpace c" and o: "options r = options g"
    unfolding trimmedOf_def by blast
  define sp where "sp = takeWhile isSpace (run_text r)"
  have "run_text r = sp @ trimStart (run_text r)" by (simp add: sp_def trimStart_def)
  then have "run_text g = (a @ sp) @ trimStart (run_text r) @ b" using g(1) by (metis append.assoc)
  moreover have "\<forall>c \<in> set (a @ sp). isSpace c"
    using g(2) by (auto simp: sp_def dest: set_takeWhileD)
  ultimately show ?thesis unfolding trimmedOf_def using g(3) o by (metis run.select_convs run.update_convs(1) run.surjective)
qed

lemma trimmedOf_trimEnd:
  assumes "trimmedOf r g"
  shows "trimmedOf (r\<lparr>run_text := trimEnd (run_text r)\<rparr>) g"
proof -
  from assms obtain a b where g: "run_text g = a @ run_text r @ b"
    "\<forall>c \<in> set a. isSpace c" "\<forall>c \<in> set b. isSpace c" and o: "options r = options g"
    unfolding trimmedOf_def by blast
  obtain sp where sp: "run_text r = trimEnd (run_text r) @ sp" "\<forall>c \<in> set sp. isSpace c"
    using trimEnd_split by blast
  have "run_text g = a @ trimEnd (run_text r) @ (sp @ b)" using g(1) sp(1) by (metis append.assoc)
  moreover have "\<forall>c \<in> set (sp @ b). isSpace c" using g(3) sp(2) by auto
  ultimately show ?thesis unfolding trimmedOf_def using g(2) o by (metis run.select_convs run.update_convs(1) run.surjective)
qed

lemma trimRuns_rel:
  assumes "list_all2 trimmedOf rs G"
  shows "list_all2 trimmedOf (trimRuns rs) G"
proof (cases "rs = []")
  case True
  then show ?thesis using assms by (simp add: trimRuns_def)
next
  case False
  define r1 where "r1 = rs[0 := (rs ! 0)\<lparr>run_text := trimStart (run_text (rs ! 0))\<rparr>]"
  define n where "n = length r1 - 1"
  have len: "length rs = length G" using assms by (rule list_all2_lengthD)
  have t: "trimRuns rs = r1[n := (r1 ! n)\<lparr>run_text := trimEnd (run_text (r1 ! n))\<rparr>]"
    using False by (simp add: trimRuns_def r1_def n_def Let_def)
  have "trimmedOf (rs ! 0) (G ! 0)" using assms False by (simp add: list_all2_nthD)
  then have "trimmedOf ((rs ! 0)\<lparr>run_text := trimStart (run_text (rs ! 0))\<rparr>) (G ! 0)"
    by (rule trimmedOf_trimStart)
  then have "list_all2 trimmedOf r1 (G[0 := G ! 0])"
    unfolding r1_def using assms by (intro list_all2_update_cong)
  then have 1: "list_all2 trimmedOf r1 G" by simp
  have "n < length r1" using False by (simp add: n_def r1_def)
  then have "trimmedOf (r1 ! n) (G ! n)" using 1 by (simp add: list_all2_nthD)
  then have "trimmedOf ((r1 ! n)\<lparr>run_text := trimEnd (run_text (r1 ! n))\<rparr>) (G ! n)"
    by (rule trimmedOf_trimEnd)
  then have "list_all2 trimmedOf (r1[n := (r1 ! n)\<lparr>run_text := trimEnd (run_text (r1 ! n))\<rparr>]) (G[n := G ! n])"
    using 1 by (intro list_all2_update_cong)
  then show ?thesis unfolding t by simp
qed

lemma trimRuns_nth:
  assumes "i < length rs"
  shows "options (trimRuns rs ! i) = options (rs ! i)"
    and "run_text (trimRuns rs ! i) =
           (let t = (if i = 0 then trimStart (run_text (rs ! i)) else run_text (rs ! i))
            in if i = length rs - 1 then trimEnd t else t)"
proof -
  define r1 where "r1 = rs[0 := (rs ! 0)\<lparr>run_text := trimStart (run_text (rs ! 0))\<rparr>]"
  define n where "n = length r1 - 1"
  have ne: "rs \<noteq> []" using assms by auto
  have t: "trimRuns rs = r1[n := (r1 ! n)\<lparr>run_text := trimEnd (run_text (r1 ! n))\<rparr>]"
    using ne by (simp add: trimRuns_def r1_def n_def Let_def)
  have len: "length r1 = length rs" "n = length rs - 1" "n < length r1"
    using ne by (simp_all add: r1_def n_def)
  have r1: "r1 ! i = (if i = 0 then (rs ! 0)\<lparr>run_text := trimStart (run_text (rs ! 0))\<rparr> else rs ! i)"
  proof (cases "i = 0")
    case True
    then show ?thesis using ne by (simp add: r1_def)
  next
    case False
    then show ?thesis by (simp add: r1_def)
  qed
  have tn: "trimRuns rs ! i = (if i = n then (r1 ! i)\<lparr>run_text := trimEnd (run_text (r1 ! i))\<rparr> else r1 ! i)"
    unfolding t using len by (cases "i = n") simp_all
  show "options (trimRuns rs ! i) = options (rs ! i)"
    unfolding tn r1 by simp
  show "run_text (trimRuns rs ! i) =
           (let t = (if i = 0 then trimStart (run_text (rs ! i)) else run_text (rs ! i))
            in if i = length rs - 1 then trimEnd t else t)"
    unfolding tn r1 len(2) by (cases "i = 0") (simp_all add: Let_def)
qed

lemma parseNodes_flat:
  "list_all2 trimmedOf runs G \<Longrightarrow> parseNodes up lo ns base tt False (runs, errs) = (rs, es) \<Longrightarrow>
   list_all2 trimmedOf rs (G @ flatRuns up lo ns base tt)"
proof (induction up lo ns base tt arbitrary: runs G errs rs es rule: flatRuns.induct)
  case (1 up lo base tt)
  then show ?case by simp
next
  case (2 up lo n ns base tt)
  show ?case
  proof (cases "isText n")
    case True
    define ts where "ts = n # takeWhile isText ns"
    define new where "new = \<lparr>run_text = concat (map (nodeText tt) ts), options = base\<rparr>"
    have ts: "ts \<noteq> []" "\<forall>n \<in> set ts. isText n"
      using True by (auto simp: ts_def dest: set_takeWhileD)
    have split: "n # ns = ts @ dropWhile isText ns" by (simp add: ts_def)
    have rest: "dropWhile isText ns = [] \<or> \<not> isText (hd (dropWhile isText ns))"
      using hd_dropWhile [of isText ns] by blast
    have "parseNodes up lo (n # ns) base tt False (runs, errs)
            = parseNodes up lo (dropWhile isText ns) base tt True (runs @ [new], errs)"
      unfolding split new_def by (rule text_group [OF ts])
    also have "\<dots> = parseNodes up lo (dropWhile isText ns) base tt False (runs @ [new], errs)"
      by (rule after_group [OF rest])
    finally have p: "parseNodes up lo (dropWhile isText ns) base tt False (runs @ [new], errs) = (rs, es)"
      using "2.prems"(2) by simp
    have "list_all2 trimmedOf (runs @ [new]) (G @ [new])"
      using "2.prems"(1) trimmedOf_refl by (simp add: list_all2_appendI)
    from "2.IH"(1) [OF True this p]
    show ?thesis using True by (simp add: new_def ts_def)
  next
    case False
    note nt = this
    define st where "st = parseNode up lo n base tt False (runs, errs)"
    obtain runs1 errs1 where st1: "st = (runs1, errs1)" by (cases st)
    have p: "parseNodes up lo ns base tt False (runs1, errs1) = (rs, es)"
      using "2.prems"(2) nt st1 by (simp add: st_def)
    define mid where "mid =
        (case n of
           Element tag computed kids \<Rightarrow>
             if trim (textContents kids) \<noteq> [] \<and> tag \<in> set inlineTags
             then flatRuns up lo kids (inlineOptions base computed)
                    (if textTransform computed \<noteq> [] \<and> textTransform computed \<noteq> js ''none''
                     then (\<lambda>t. applyTextTransform up lo t (textTransform computed))
                     else tt)
             else []
         | _ \<Rightarrow> [])"
    have f: "flatRuns up lo (n # ns) base tt = mid @ flatRuns up lo ns base tt"
      using nt by (simp add: mid_def)
    have r1: "list_all2 trimmedOf runs1 (G @ mid)"
    proof (cases n)
      case (TextNode t)
      then show ?thesis using nt by (simp add: isText_def)
    next
      case OtherNode
      then show ?thesis using st1 "2.prems"(1) by (simp add: st_def mid_def)
    next
      case (Element tag computed kids)
      show ?thesis
      proof (cases "trim (textContents kids) \<noteq> [] \<and> tag \<in> set inlineTags")
        case False
        then have "st = (runs, errs)" "mid = []"
          using Element nt by (auto simp: st_def mid_def)
        then show ?thesis using st1 "2.prems"(1) by simp
      next
        case True
        define opts where "opts = inlineOptions base computed"
        define tr where "tr = (if textTransform computed \<noteq> [] \<and> textTransform computed \<noteq> js ''none''
                     then (\<lambda>t. applyTextTransform up lo t (textTransform computed))
                     else tt)"
        obtain runs' errs' where k: "parseNodes up lo kids opts tr False (runs, errs @ marginErrors tag computed) = (runs', errs')"
          by (cases "parseNodes up lo kids opts tr False (runs, errs @ marginErrors tag computed)")
        have "st = (trimRuns runs', errs')"
          using Element nt True k by (simp add: st_def opts_def tr_def Let_def)
        then have runs1: "runs1 = trimRuns runs'" using st1 by simp
        have m: "mid = flatRuns up lo kids opts tr"
          using Element True by (simp add: mid_def opts_def tr_def)
        have "list_all2 trimmedOf runs' (G @ flatRuns up lo kids opts tr)"
          using "2.IH"(2) [OF nt Element True "2.prems"(1)] k unfolding opts_def tr_def by blast
        then show ?thesis unfolding runs1 m by (rule trimRuns_rel)
      qed
    qed
    from "2.IH"(3) [OF nt r1 p] show ?thesis unfolding f by simp
  qed
qed

lemmas inline_eval = parseInlineFormatting_def inlineOptions_def isText_def nodeText_def addText_def
  trimRuns_def inlineTags_def collapseSpace_def parseIntJs_def atLeast600_def shouldSkipBold_def
  marginErrors_def positive_def pxToPoints_def PT_PER_PX_def noOptions_def upperAscii_def
  lowerAscii_def applyTextTransform_def

text \<open>
  Claim C5, as the code has it. Text nodes and line breaks that follow one another
  among the child nodes of one element are joined into a single run with the options of
  that element, wherever the group stands in the list of children; after a node that is
  neither, the next text starts a new run, whatever its options are. So the runs that
  the loop of a call from outside builds are the runs of \<open>flatRuns\<close>, one for each group of
  text siblings of the tree, in document order and with the options of the element that
  holds the group, but for white space that may be missing at the ends of their texts. The
  call returns these runs after a last step, and without the runs whose text is then
  empty: the last step takes the leading white space from the text of the first run and
  the trailing white space from the text of the last run, and changes nothing else, no
  options and no text of a run between them.
\<close>

theorem parseInlineFormatting_runs:
  "(ts \<noteq> [] \<and> (\<forall>n \<in> set ts. isText n) \<longrightarrow>
      parseNodes up lo (ts @ rest) base tt False (runs, errs) =
        parseNodes up lo rest base tt True
          (runs @ [\<lparr>run_text = concat (map (nodeText tt) ts), options = base\<rparr>], errs))
   \<and> (\<not> isText n \<longrightarrow>
        parseNodes up lo (n # rest) base tt prev (runs, errs) =
          parseNodes up lo rest base tt False (parseNode up lo n base tt False (runs, errs)))
   \<and> (\<exists>rs es. parseNodes up lo kids base tt False ([], errs) = (rs, es)
         \<and> parseInlineFormatting up lo kids base tt errs = (filter (\<lambda>r. run_text r \<noteq> []) (trimRuns rs), es)
         \<and> list_all2 trimmedOf rs (flatRuns up lo kids base tt)
         \<and> length (trimRuns rs) = length rs
         \<and> (\<forall>i < length rs.
               options (trimRuns rs ! i) = options (rs ! i)
             \<and> run_text (trimRuns rs ! i) =
                 (let t = (if i = 0 then trimStart (run_text (rs ! i)) else run_text (rs ! i))
                  in if i = length rs - 1 then trimEnd t else t)))"
proof -
  obtain rs es where p: "parseNodes up lo kids base tt False ([], errs) = (rs, es)"
    by (cases "parseNodes up lo kids base tt False ([], errs)")
  have "parseInlineFormatting up lo kids base tt errs = (filter (\<lambda>r. run_text r \<noteq> []) (trimRuns rs), es)"
    by (simp add: parseInlineFormatting_def p)
  moreover have "list_all2 trimmedOf rs (flatRuns up lo kids base tt)"
    using parseNodes_flat [of "[]" "[]", OF _ p] by simp
  moreover have "\<forall>i < length rs.
               options (trimRuns rs ! i) = options (rs ! i)
             \<and> run_text (trimRuns rs ! i) =
                 (let t = (if i = 0 then trimStart (run_text (rs ! i)) else run_text (rs ! i))
                  in if i = length rs - 1 then trimEnd t else t)"
    using trimRuns_nth by blast
  ultimately have "\<exists>rs es. parseNodes up lo kids base tt False ([], errs) = (rs, es)
         \<and> parseInlineFormatting up lo kids base tt errs = (filter (\<lambda>r. run_text r \<noteq> []) (trimRuns rs), es)
         \<and> list_all2 trimmedOf rs (flatRuns up lo kids base tt)
         \<and> length (trimRuns rs) = length rs
         \<and> (\<forall>i < length rs.
               options (trimRuns rs ! i) = options (rs ! i)
             \<and> run_text (trimRuns rs ! i) =
                 (let t = (if i = 0 then trimStart (run_text (rs ! i)) else run_text (rs ! i))
                  in if i = length rs - 1 then trimEnd t else t))"
    using p trimRuns_length [of rs] by blast
  then show ?thesis
    using text_group [of ts up lo rest base tt runs errs] after_element [of n up lo rest base tt prev "(runs, errs)"]
    by blast
qed

theorem parseInlineFormatting_runs_witness:
  "parseInlineFormatting id id
     [TextNode (js ''  a ''), Element (js ''BR'') 
       \<lparr>fontWeight = js ''400'', fontFamily = js ''Arial'', fontStyle = js ''normal'',
         textDecoration = js ''none'', color = js ''rgb(0, 0, 0)'', fontSize = js ''16px'',
         textTransform = js ''none'', marginLeft = js ''0px'', marginRight = js ''0px'',
         marginTop = js ''0px'', marginBottom = js ''0px''\<rparr> [], TextNode (js '' b  '')] noOptions id []
   = ([\<lparr>run_text = js ''a '' @ [10] @ js '' b'', options = noOptions\<rparr>], [])"
proof -
  define br where "br = Element (js ''BR'') 
       \<lparr>fontWeight = js ''400'', fontFamily = js ''Arial'', fontStyle = js ''normal'',
         textDecoration = js ''none'', color = js ''rgb(0, 0, 0)'', fontSize = js ''16px'',
         textTransform = js ''none'', marginLeft = js ''0px'', marginRight = js ''0px'',
         marginTop = js ''0px'', marginBottom = js ''0px''\<rparr> []"
  define ts where "ts = [TextNode (js ''  a ''), br, TextNode (js '' b  '')]"
  have t: "ts \<noteq> [] \<and> (\<forall>n \<in> set ts. isText n)"
    by (simp add: ts_def br_def isText_def)
  have "parseNodes id id (ts @ []) noOptions id False ([], [])
          = parseNodes id id [] noOptions id True
              ([] @ [\<lparr>run_text = concat (map (nodeText id) ts), options = noOptions\<rparr>], [])"
    using parseInlineFormatting_runs [where ts = ts and up = id and lo = id and rest = "[]"
        and base = noOptions and tt = id and runs = "[]" and errs = "[]"] t
    by blast
  then have "parseNodes id id ts noOptions id False ([], [])
          = ([\<lparr>run_text = concat (map (nodeText id) ts), options = noOptions\<rparr>], [])"
    by simp
  then have "parseInlineFormatting id id ts noOptions id []
          = ([\<lparr>run_text = js ''a '' @ [10] @ js '' b'', options = noOptions\<rparr>], [])"
    by (simp add: parseInlineFormatting_def trimRuns_def nodeText_def collapseSpace_def js_eval ts_def br_def)
  then show ?thesis unfolding ts_def br_def .
qed

text \<open>
  Claim C5 as stated fails twice. A text inside a span inside a span with the same
  computed style gives two adjacent runs with identical options, which stay separate.
  And the call for a nested element ends with the same trimming step on the shared array,
  so the run \<open>Hello \<close> of a \<open>b\<close> element loses its trailing space although the run
  \<open>world\<close> follows it.
\<close>

theorem parseInlineFormatting_as_stated_fails:
  "fst (parseInlineFormatting id id
     [Element (js ''SPAN'') 
       \<lparr>fontWeight = js ''400'', fontFamily = js ''Arial'', fontStyle = js ''normal'',
         textDecoration = js ''none'', color = js ''rgb(0, 0, 0)'', fontSize = js ''16px'',
         textTransform = js ''none'', marginLeft = js ''0px'', marginRight = js ''0px'',
         marginTop = js ''0px'', marginBottom = js ''0px''\<rparr>
        [TextNode (js ''a''), Element (js ''SPAN'') 
       \<lparr>fontWeight = js ''400'', fontFamily = js ''Arial'', fontStyle = js ''normal'',
         textDecoration = js ''none'', color = js ''rgb(0, 0, 0)'', fontSize = js ''16px'',
         textTransform = js ''none'', marginLeft = js ''0px'', marginRight = js ''0px'',
         marginTop = js ''0px'', marginBottom = js ''0px''\<rparr> [TextNode (js ''b'')]]] noOptions id [])
   = [\<lparr>run_text = js ''a'', options = noOptions\<lparr>run_fontSize := Some (Num 12)\<rparr>\<rparr>,
      \<lparr>run_text = js ''b'', options = noOptions\<lparr>run_fontSize := Some (Num 12)\<rparr>\<rparr>]
   \<and> fst (parseInlineFormatting id id
     [Element (js ''B'') 
       \<lparr>fontWeight = js ''700'', fontFamily = js ''Arial'', fontStyle = js ''normal'',
         textDecoration = js ''none'', color = js ''rgb(0, 0, 0)'', fontSize = js ''16px'',
         textTransform = js ''none'', marginLeft = js ''0px'', marginRight = js ''0px'',
         marginTop = js ''0px'', marginBottom = js ''0px''\<rparr> [TextNode (js ''Hello '')], TextNode (js ''world'')] noOptions id [])
   = [\<lparr>run_text = js ''Hello'', options = noOptions\<lparr>bold := True, run_fontSize := Some (Num 12)\<rparr>\<rparr>,
      \<lparr>run_text = js ''world'', options = noOptions\<rparr>]"
  by (simp add: inline_eval js_eval)

subsection \<open>autoFixHtml and the backup of the original\<close>

lemmas gradient_eval = matchGradientAt_def matchHexColorAt_def matchRgbColorAt_def isHexDigit_def
  lowerAscii_def colorNames_def matchColorNameAt_def extractFirstColor_def gradientReplacement_def
  fixLinearGradients_def fixRadialGradients_def matchBackgroundImageAt_def fixBackgroundImages_def
  fixStyle_def gradientFix_def gradientCanFix_def

lemma fixStyle_example:
  "fixStyle (js ''background: linear-gradient(red, blue);'') = js ''background: red;''"
  by (simp add: gradient_eval js_eval)

lemma save_without_backup:
  "save serialize False fixer fs = Some (ok, fs') \<Longrightarrow> p \<noteq> htmlPath fixer \<Longrightarrow> fs' p = fs p"
  by (auto simp: save_def Let_def split: if_splits)

lemma runFixers_other_paths:
  "runFixers parse serialize ks cur hasAnyFix fs = Some (ok, fs') \<Longrightarrow> p \<noteq> htmlPath cur \<Longrightarrow> fs' p = fs p"
proof (induction ks arbitrary: cur hasAnyFix fs)
  case Nil
  then show ?case by simp
next
  case (Cons k ks)
  show ?case
  proof (cases "canFix k (errorMessage_of cur) (htmlContent cur)
                  \<and> fst (fix_dom k (errorMessage_of cur) (dom cur))")
    case False
    with Cons.prems have "runFixers parse serialize ks cur hasAnyFix fs = Some (ok, fs')"
      by (auto simp: Let_def split: prod.splits if_splits)
    from Cons.IH [OF this Cons.prems(2)] show ?thesis .
  next
    case True
    obtain d where d: "fix_dom k (errorMessage_of cur) (dom cur) = (True, d)"
      using True by (cases "fix_dom k (errorMessage_of cur) (dom cur)") auto
    from Cons.prems(1) True d obtain saved fs1 where
      s: "save serialize False (cur\<lparr>dom := d, fixed := True\<rparr>) fs = Some (saved, fs1)"
      and r: "runFixers parse serialize ks
                (cur\<lparr>htmlContent := serialize d, dom := parse (serialize d)\<rparr>) True fs1 = Some (ok, fs')"
      by (auto simp: Let_def split: option.splits)
    have "fs1 p = fs p"
      using save_without_backup [OF s] Cons.prems(2) by simp
    moreover have "fs' p = fs1 p"
      using Cons.IH [OF r] Cons.prems(2) by simp
    ultimately show ?thesis by simp
  qed
qed

text \<open>
  Claim C2 on the code. Whatever the option \<open>backup\<close> is, a run of \<open>autoFixHtml\<close> that
  ends without an exception leaves every file but the HTML file itself as it was; in
  particular it creates no file \<open>htmlPath + ".backup"\<close>, also when a fixer has changed
  the document and \<open>backup\<close> is true.
\<close>

theorem autoFixHtml_writes_no_backup:
  assumes "autoFixHtml parse serialize classes fs path errorMessage backup = Some (ok, fs')"
  shows "fs' (path @ js ''.backup'') = fs (path @ js ''.backup'')"
proof -
  from assms obtain fixer where f: "newErrorFixer parse fs errorMessage path = Some fixer"
    and r: "runFixers parse serialize classes fixer False fs = Some (ok, fs')"
    by (auto simp: autoFixHtml_def split: option.splits)
  from f have "htmlPath fixer = path"
    by (auto simp: newErrorFixer_def split: option.splits)
  moreover have "path @ js ''.backup'' \<noteq> path"
    by (simp add: js_def)
  ultimately show ?thesis
    using runFixers_other_paths [OF r] by simp
qed

theorem autoFixHtml_writes_no_backup_witness:
  "\<exists>fs'. autoFixHtml (\<lambda>c. [c]) concat [\<lparr>canFix = gradientCanFix, fix_dom = (\<lambda>e d. gradientFix d)\<rparr>]
           [js ''s.html'' \<mapsto> js ''background: linear-gradient(red, blue);''] (js ''s.html'') [] True
         = Some (True, fs')
       \<and> fs' (js ''s.html'') = Some (js ''background: red;'')
       \<and> fs' (js ''s.html.backup'') = None"
proof -
  have c: "gradientCanFix [] (js ''background: linear-gradient(red, blue);'')"
    by (simp add: gradientCanFix_def js_def)
  have g: "gradientFix [js ''background: linear-gradient(red, blue);''] = (True, [js ''background: red;''])"
    by (simp add: gradientFix_def fixStyle_example) (simp add: js_def)
  have r: "autoFixHtml (\<lambda>c. [c]) concat [\<lparr>canFix = gradientCanFix, fix_dom = (\<lambda>e d. gradientFix d)\<rparr>]
           [js ''s.html'' \<mapsto> js ''background: linear-gradient(red, blue);''] (js ''s.html'') [] True
         = Some (True, [js ''s.html'' \<mapsto> js ''background: red;''])"
    by (simp add: autoFixHtml_def newErrorFixer_def save_def c g)
  have "[js ''s.html'' \<mapsto> js ''background: red;''] (js ''s.html'' @ js ''.backup'') = None"
    using autoFixHtml_writes_no_backup [OF r] by (simp add: js_def)
  then show ?thesis
    using r by (simp add: js_def)
qed

subsection \<open>CssGradientFixer: a second run changes nothing\<close>

lemma startsWith_iff: "startsWith s p \<longleftrightarrow> (\<exists>r. s = p @ r)"
  by (induction s p rule: startsWith.induct) auto

lemma stripPrefix_Some: "stripPrefix p s = Some r \<longleftrightarrow> s = p @ r"
  by (auto simp: stripPrefix_def startsWith_iff)

lemma stripPrefix_None: "stripPrefix p s = None \<longleftrightarrow> \<not> (\<exists>r. s = p @ r)"
  by (auto simp: stripPrefix_def startsWith_iff)

lemma strIncludes_iff: "strIncludes s p \<longleftrightarrow> (\<exists>a b. s = a @ p @ b)"
proof (induction s)
  case Nil
  then show ?case by auto
next
  case (Cons c cs)
  show ?case
  proof
    assume "strIncludes (c # cs) p"
    then consider "startsWith (c # cs) p" | "strIncludes cs p" by auto
    then show "\<exists>a b. c # cs = a @ p @ b"
    proof cases
      case 1
      then obtain r where "c # cs = p @ r" by (auto simp: startsWith_iff)
      then have "c # cs = [] @ p @ r" by simp
      then show ?thesis by blast
    next
      case 2
      then obtain a b where "cs = a @ p @ b" using Cons.IH by auto
      then have "c # cs = (c # a) @ p @ b" by simp
      then show ?thesis by blast
    qed
  next
    assume "\<exists>a b. c # cs = a @ p @ b"
    then obtain a b where ab: "c # cs = a @ p @ b" by auto
    show "strIncludes (c # cs) p"
    proof (cases a)
      case Nil
      then have "startsWith (c # cs) p" using ab by (auto simp: startsWith_iff)
      then show ?thesis by simp
    next
      case (Cons a1 as)
      then have "cs = as @ p @ b" using ab by simp
      then show ?thesis using Cons.IH by auto
    qed
  qed
qed

lemma keyword_facts:
  assumes "keyword kw"
  shows "kw \<noteq> []" "\<not> isSpace (hd kw)" "59 \<notin> set kw" "98 \<notin> set kw"
  using assms by (auto simp: keyword_def js_def isSpace_def)

lemma not_space_59: "\<not> isSpace 59" and not_space_98: "\<not> isSpace 98"
  by (simp_all add: isSpace_def)

lemma spaces_no_semicolon: "\<forall>c \<in> set ws. isSpace c \<Longrightarrow> 59 \<notin> set ws \<and> 98 \<notin> set ws"
  using not_space_59 not_space_98 by blast

lemma bgp_chars: "59 \<notin> set (js ''background:'')" "js ''background:'' = 98 # js ''ackground:''"
  "98 \<notin> set (js ''ackground:'')"
  by (simp_all add: js_def)

lemma split_at_first:
  "x \<notin> set a \<Longrightarrow> x \<notin> set c \<Longrightarrow> a @ x # b = c @ x # d \<Longrightarrow> a = c \<and> b = d"
proof (induction a arbitrary: c)
  case Nil
  then show ?case by (cases c) auto
next
  case (Cons a1 a)
  then show ?case by (cases c) auto
qed

lemma dropWhile_space_split:
  assumes "\<forall>c \<in> set ws. isSpace c" "r \<noteq> []" "\<not> isSpace (hd r)"
  shows "dropWhile isSpace (ws @ r) = r" "takeWhile isSpace (ws @ r) = ws"
  using assms by (induction ws) (auto simp: neq_Nil_conv)

lemma matchGradientAt_SomeD:
  assumes "matchGradientAt kw s = Some m"
  shows "\<exists>r r1. s = js ''background:'' @ r \<and> dropWhile isSpace r = kw @ r1
           \<and> 2 \<le> length (takeWhile (\<lambda>c. c \<noteq> 59) r1) \<and> last (takeWhile (\<lambda>c. c \<noteq> 59) r1) = 41
           \<and> dropWhile (\<lambda>c. c \<noteq> 59) r1 \<noteq> []"
proof (cases "stripPrefix (js ''background:'') s")
  case None
  with assms show ?thesis by (simp add: matchGradientAt_def)
next
  case (Some r)
  note r = this
  show ?thesis
  proof (cases "stripPrefix kw (dropWhile isSpace r)")
    case None
    with assms r show ?thesis by (simp add: matchGradientAt_def)
  next
    case (Some r1)
    have "2 \<le> length (takeWhile (\<lambda>c. c \<noteq> 59) r1) \<and> last (takeWhile (\<lambda>c. c \<noteq> 59) r1) = 41
           \<and> dropWhile (\<lambda>c. c \<noteq> 59) r1 \<noteq> []"
      using assms unfolding matchGradientAt_def r Some Let_def option.case
      by (meson option.distinct(1))
    then show ?thesis
      using r Some unfolding stripPrefix_Some by blast
  qed
qed

lemma matchGradientAt_segment:
  assumes kw: "keyword kw" and y: "59 \<notin> set y"
  shows "matchGradientAt kw (y @ 59 # z) = (if gradSeg kw y then Some (y @ [59]) else None)"
proof (cases "gradSeg kw y")
  case True
  then obtain ws t where d: "y = js ''background:'' @ ws @ kw @ t" "\<forall>c \<in> set ws. isSpace c"
    "2 \<le> length t" "last t = 41"
    unfolding gradSeg_def by blast
  have t: "59 \<notin> set t" using y d(1) by simp
  have s1: "stripPrefix (js ''background:'') (y @ 59 # z) = Some (ws @ kw @ t @ 59 # z)"
    unfolding stripPrefix_Some d(1) by simp
  have "dropWhile isSpace (ws @ kw @ t @ 59 # z) = kw @ t @ 59 # z"
    using dropWhile_space_split(1) [OF d(2), of "kw @ t @ 59 # z"] keyword_facts(1,2) [OF kw] by simp
  then have s2: "stripPrefix kw (dropWhile isSpace (ws @ kw @ t @ 59 # z)) = Some (t @ 59 # z)"
    unfolding stripPrefix_Some by simp
  have tk: "takeWhile (\<lambda>c. c \<noteq> 59) (t @ 59 # z) = t" "dropWhile (\<lambda>c. c \<noteq> 59) (t @ 59 # z) = 59 # z"
  proof -
    have "\<And>c. c \<in> set t \<Longrightarrow> c \<noteq> 59" using t by auto
    then show "takeWhile (\<lambda>c. c \<noteq> 59) (t @ 59 # z) = t" "dropWhile (\<lambda>c. c \<noteq> 59) (t @ 59 # z) = 59 # z"
      by (simp_all add: takeWhile_append2 dropWhile_append2)
  qed
  have tl: "take (length (y @ 59 # z) - length (59 # z) + 1) (y @ 59 # z) = y @ [59]"
    by simp
  have "matchGradientAt kw (y @ 59 # z) = Some (y @ [59])"
    unfolding matchGradientAt_def s1 s2 option.case Let_def tk tl using d(3,4) by simp
  then show ?thesis using True by simp
next
  case False
  have "matchGradientAt kw (y @ 59 # z) = None"
  proof (rule ccontr)
    assume "matchGradientAt kw (y @ 59 # z) \<noteq> None"
    then obtain m where m: "matchGradientAt kw (y @ 59 # z) = Some m" by blast
    from matchGradientAt_SomeD [OF m] obtain r r1 where r: "y @ 59 # z = js ''background:'' @ r"
      and r1: "dropWhile isSpace r = kw @ r1"
      and c: "2 \<le> length (takeWhile (\<lambda>c. c \<noteq> 59) r1)" "last (takeWhile (\<lambda>c. c \<noteq> 59) r1) = 41"
        "dropWhile (\<lambda>c. c \<noteq> 59) r1 \<noteq> []"
      by blast
    define ws where "ws = takeWhile isSpace r"
    define t where "t = takeWhile (\<lambda>c. c \<noteq> 59) r1"
    have ws: "\<forall>c \<in> set ws. isSpace c" unfolding ws_def by (auto dest: set_takeWhileD)
    have "r = takeWhile isSpace r @ dropWhile isSpace r" by simp
    then have rr: "r = ws @ kw @ r1" unfolding r1 ws_def .
    have "hd (dropWhile (\<lambda>c. c \<noteq> 59) r1) = 59"
      using c(3) hd_dropWhile [of "\<lambda>c. c \<noteq> 59" r1] by blast
    then have rest: "dropWhile (\<lambda>c. c \<noteq> 59) r1 = 59 # tl (dropWhile (\<lambda>c. c \<noteq> 59) r1)"
      using c(3) by (cases "dropWhile (\<lambda>c. c \<noteq> 59) r1") simp_all
    define rest where "rest = tl (dropWhile (\<lambda>c. c \<noteq> 59) r1)"
    have "r1 = takeWhile (\<lambda>c. c \<noteq> 59) r1 @ dropWhile (\<lambda>c. c \<noteq> 59) r1" by simp
    then have r1t: "r1 = t @ 59 # rest" using rest unfolding t_def rest_def by simp
    have tn: "59 \<notin> set t" unfolding t_def by (auto dest: set_takeWhileD)
    have n: "59 \<notin> set (js ''background:'' @ ws @ kw @ t)"
      using spaces_no_semicolon [OF ws] tn keyword_facts(3) [OF kw] bgp_chars(1) by simp
    have "y @ 59 # z = js ''background:'' @ ws @ kw @ r1"
      using r rr by simp
    then have e: "y @ 59 # z = (js ''background:'' @ ws @ kw @ t) @ 59 # rest"
      by (subst (asm) r1t) simp
    have "y = js ''background:'' @ ws @ kw @ t"
      using split_at_first [OF y n e] by simp
    moreover have "2 \<le> length t" "last t = 41" using c(1,2) unfolding t_def by simp_all
    ultimately have "gradSeg kw y" unfolding gradSeg_def using ws by blast
    with False show False by simp
  qed
  then show ?thesis using False by simp
qed

lemma matchGradientAt_no_semicolon:
  assumes "59 \<notin> set x"
  shows "matchGradientAt kw x = None"
proof (rule ccontr)
  assume "matchGradientAt kw x \<noteq> None"
  then obtain m where m: "matchGradientAt kw x = Some m" by blast
  from matchGradientAt_SomeD [OF m] obtain r r1 where r: "x = js ''background:'' @ r"
    "dropWhile isSpace r = kw @ r1" "dropWhile (\<lambda>c. c \<noteq> 59) r1 \<noteq> []"
    by blast
  have "59 \<in> set r1" using r(3) by (metis (mono_tags, lifting) dropWhile_eq_Nil_conv)
  moreover have "set r1 \<subseteq> set r"
    using r(2) set_dropWhileD [of _ isSpace r] by (metis Un_iff set_append subsetI)
  ultimately show False using assms r(1) by auto
qed

lemma gradSeg_ends:
  assumes "gradSeg kw y"
  shows "y \<noteq> []" "hd y = 98" "last y = 41" "2 \<le> length y"
proof -
  from assms obtain ws t where d: "y = js ''background:'' @ ws @ kw @ t" "2 \<le> length t" "last t = 41"
    unfolding gradSeg_def by blast
  have t: "t \<noteq> []" using d(2) by auto
  show "y \<noteq> []" "hd y = 98" unfolding d(1) bgp_chars(2) by simp_all
  show "last y = 41" unfolding d(1) using t d(3) by simp
  show "2 \<le> length y" unfolding d(1) using d(2) by simp
qed

lemma suffix_head_in_tail:
  assumes "T = u @ w" "u \<noteq> []" "w \<noteq> []"
  shows "hd w \<in> set (tl T)"
proof -
  obtain u1 u' where "u = u1 # u'" using assms(2) by (cases u) auto
  then have "tl T = u' @ w" using assms(1) by simp
  then show ?thesis using assms(3) by simp
qed

lemma token_tail_no_b:
  assumes "keyword kw" "\<forall>c \<in> set ws. isSpace c"
  shows "98 \<notin> set (tl (js ''background:'' @ ws @ kw))"
  unfolding bgp_chars(2) using bgp_chars(3) spaces_no_semicolon [OF assms(2)] keyword_facts(4) [OF assms(1)]
  by simp

lemma gradSeg_swap_tail:
  assumes kw: "keyword kw" and g: "gradSeg kw (u @ v)" and u: "u \<noteq> []" and v: "v \<noteq> []" "hd v = 98"
    and v': "2 \<le> length v'" "last v' = 41"
  shows "gradSeg kw (u @ v')"
proof -
  from g obtain ws t where d: "u @ v = js ''background:'' @ ws @ kw @ t" "\<forall>c \<in> set ws. isSpace c"
    "2 \<le> length t" "last t = 41"
    unfolding gradSeg_def by blast
  define T where "T = js ''background:'' @ ws @ kw"
  have e: "u @ v = T @ t" using d(1) unfolding T_def by simp
  from e consider us where "u = T @ us" "us @ v = t" | us where "u @ us = T" "v = us @ t"
    unfolding append_eq_append_conv2 by blast
  then have "\<exists>us. u = T @ us"
  proof cases
    case 1
    then show ?thesis by blast
  next
    case 2
    show ?thesis
    proof (cases "us = []")
      case True
      then show ?thesis using 2(1) by simp
    next
      case False
      then have "hd us = 98" using 2(2) v(2) by simp
      moreover have "hd us \<in> set (tl T)"
        using suffix_head_in_tail [OF 2(1) [symmetric] u False] .
      ultimately show ?thesis
        using token_tail_no_b [OF kw d(2)] unfolding T_def by simp
    qed
  qed
  then obtain us where us: "u = T @ us" by blast
  have v'n: "v' \<noteq> []" using v'(1) by auto
  have "u @ v' = js ''background:'' @ ws @ kw @ (us @ v')"
    unfolding us T_def by simp
  moreover have "2 \<le> length (us @ v')" using v'(1) by simp
  moreover have "last (us @ v') = 41" using v'(2) v'n by simp
  ultimately show ?thesis unfolding gradSeg_def using d(2) by blast
qed

lemma gradSeg_in_replacement:
  assumes kw: "keyword kw" and g: "gradSeg kw v" and e: "js ''background: '' @ C = a @ v"
  shows "strIncludes C kw"
proof -
  from g obtain ws t where d: "v = js ''background:'' @ ws @ kw @ t" "\<forall>c \<in> set ws. isSpace c"
    unfolding gradSeg_def by blast
  have hv: "v \<noteq> []" "hd v = 98" using gradSeg_ends(1,2) [OF g] .
  have p: "js ''background: '' = js ''background:'' @ [32]" by (simp add: js_def)
  from e consider us where "js ''background: '' = a @ us" "us @ C = v"
    | us where "js ''background: '' @ us = a" "C = us @ v"
    unfolding append_eq_append_conv2 by blast
  then show ?thesis
  proof cases
    case 2
    then have "C = us @ js ''background:'' @ ws @ kw @ t" using d(1) by simp
    then have "C = (us @ js ''background:'' @ ws) @ kw @ t" by simp
    then show ?thesis unfolding strIncludes_iff by blast
  next
    case 1
    show ?thesis
    proof (cases "a = []")
      case True
      then have "js ''background: '' @ C = js ''background:'' @ ws @ kw @ t" using e d(1) by simp
      then have w: "32 # C = ws @ kw @ t" unfolding p by simp
      show ?thesis
      proof (cases ws)
        case Nil
        then have "hd kw = 32" using w keyword_facts(1) [OF kw] by (metis append_Nil hd_append2 list.sel(1))
        then show ?thesis using keyword_facts(2) [OF kw] by (simp add: isSpace_def)
      next
        case (Cons w1 ws')
        then have "C = ws' @ kw @ t" using w by simp
        then show ?thesis unfolding strIncludes_iff by blast
      qed
    next
      case False
      show ?thesis
      proof (cases "us = []")
        case True
        then have "C = [] @ js ''background:'' @ ws @ kw @ t" using 1(2) d(1) by simp
        then have "C = (js ''background:'' @ ws) @ kw @ t" by simp
        then show ?thesis unfolding strIncludes_iff by blast
      next
        case usn: False
        then have "hd us = 98" using 1(2) hv(2) by (metis hd_append2)
        moreover have "hd us \<in> set (tl (js ''background: ''))"
          using suffix_head_in_tail [OF 1(1) False usn] .
        moreover have "98 \<notin> set (tl (js ''background: ''))" by (simp add: js_def)
        ultimately show ?thesis by simp
      qed
    qed
  qed
qed
lemma gradSeg_Nil: "\<not> gradSeg kw []"
  using gradSeg_ends(1) by blast

lemma replaceAll_segment:
  assumes kw: "keyword kw" and y: "59 \<notin> set y"
  shows "replaceAll (matchGradientAt kw) gradientReplacement (y @ 59 # z)
           = segFix kw y @ 59 # replaceAll (matchGradientAt kw) gradientReplacement z"
  using y
proof (induction y)
  case Nil
  have "matchGradientAt kw (59 # z) = None"
    using matchGradientAt_segment [OF kw, of "[]" z] gradSeg_Nil by simp
  then show ?case by simp
next
  case (Cons c cs)
  then have cs: "59 \<notin> set cs" and ccs: "59 \<notin> set (c # cs)" by simp_all
  show ?case
  proof (cases "gradSeg kw (c # cs)")
    case True
    then have m: "matchGradientAt kw (c # cs @ 59 # z) = Some ((c # cs) @ [59])"
      using matchGradientAt_segment [OF kw ccs, of z] by simp
    have "replaceAll (matchGradientAt kw) gradientReplacement (c # cs @ 59 # z)
            = gradientReplacement ((c # cs) @ [59])
              @ replaceAll (matchGradientAt kw) gradientReplacement (drop (length ((c # cs) @ [59])) (c # cs @ 59 # z))"
      unfolding replaceAll.simps m by simp
    also have "drop (length ((c # cs) @ [59])) (c # cs @ 59 # z) = z" by simp
    finally show ?thesis using True by (simp add: gradientReplacement_def js_def)
  next
    case False
    then have m: "matchGradientAt kw (c # cs @ 59 # z) = None"
      using matchGradientAt_segment [OF kw ccs, of z] by simp
    show ?thesis using False Cons.IH [OF cs] by (simp add: m)
  qed
qed

lemma replaceAll_no_semicolon:
  assumes "59 \<notin> set x"
  shows "replaceAll (matchGradientAt kw) f x = x"
  using assms
proof (induction x)
  case Nil
  then show ?case by simp
next
  case (Cons c cs)
  then show ?case using matchGradientAt_no_semicolon [of "c # cs" kw] by simp
qed

lemma replacedBy_segment:
  assumes kw: "keyword kw" and y: "59 \<notin> set y"
  shows "map extractFirstColor (replacedBy (matchGradientAt kw) (y @ 59 # z))
           = segColor kw y @ map extractFirstColor (replacedBy (matchGradientAt kw) z)"
  using y
proof (induction y)
  case Nil
  have "matchGradientAt kw (59 # z) = None"
    using matchGradientAt_segment [OF kw, of "[]" z] gradSeg_Nil by simp
  then show ?case by simp
next
  case (Cons c cs)
  then have cs: "59 \<notin> set cs" and ccs: "59 \<notin> set (c # cs)" by simp_all
  show ?case
  proof (cases "gradSeg kw (c # cs)")
    case True
    then have m: "matchGradientAt kw (c # cs @ 59 # z) = Some ((c # cs) @ [59])"
      using matchGradientAt_segment [OF kw ccs, of z] by simp
    have "replacedBy (matchGradientAt kw) (c # cs @ 59 # z)
            = ((c # cs) @ [59])
              # replacedBy (matchGradientAt kw) (drop (length ((c # cs) @ [59])) (c # cs @ 59 # z))"
      unfolding replacedBy.simps m by simp
    also have "drop (length ((c # cs) @ [59])) (c # cs @ 59 # z) = z" by simp
    finally show ?thesis using True by simp
  next
    case False
    then have m: "matchGradientAt kw (c # cs @ 59 # z) = None"
      using matchGradientAt_segment [OF kw ccs, of z] by simp
    show ?thesis using False Cons.IH [OF cs] by (simp add: m)
  qed
qed

lemma segFix_cases:
  "(segFix kw y = y \<and> segColor kw y = [] \<and> (\<forall>k. \<not> gradSeg kw (drop k y)))
   \<or> (\<exists>u z. y = u @ z \<and> gradSeg kw z \<and> (\<forall>k < length u. \<not> gradSeg kw (drop k y))
         \<and> segFix kw y = u @ js ''background: '' @ extractFirstColor (z @ [59])
         \<and> segColor kw y = [extractFirstColor (z @ [59])])"
proof (induction y)
  case Nil
  then show ?case by (simp add: gradSeg_Nil)
next
  case (Cons c cs)
  show ?case
  proof (cases "gradSeg kw (c # cs)")
    case True
    then have "c # cs = [] @ (c # cs) \<and> gradSeg kw (c # cs) \<and> (\<forall>k < length ([] :: jsstring). \<not> gradSeg kw (drop k (c # cs)))
         \<and> segFix kw (c # cs) = [] @ js ''background: '' @ extractFirstColor ((c # cs) @ [59])
         \<and> segColor kw (c # cs) = [extractFirstColor ((c # cs) @ [59])]"
      by simp
    then show ?thesis by blast
  next
    case False
    from Cons.IH show ?thesis
    proof
      assume a: "segFix kw cs = cs \<and> segColor kw cs = [] \<and> (\<forall>k. \<not> gradSeg kw (drop k cs))"
      have "\<not> gradSeg kw (drop k (c # cs))" for k
        using a False by (cases k) simp_all
      then show ?thesis using a False by simp
    next
      assume "\<exists>u z. cs = u @ z \<and> gradSeg kw z \<and> (\<forall>k < length u. \<not> gradSeg kw (drop k cs))
         \<and> segFix kw cs = u @ js ''background: '' @ extractFirstColor (z @ [59])
         \<and> segColor kw cs = [extractFirstColor (z @ [59])]"
      then obtain u z where b: "cs = u @ z" "gradSeg kw z" "\<forall>k < length u. \<not> gradSeg kw (drop k cs)"
        "segFix kw cs = u @ js ''background: '' @ extractFirstColor (z @ [59])"
        "segColor kw cs = [extractFirstColor (z @ [59])]"
        by blast
      have "\<not> gradSeg kw (drop k (c # cs))" if "k < length (c # u)" for k
        using that b(3) False by (cases k) simp_all
      then have "c # cs = (c # u) @ z \<and> gradSeg kw z \<and> (\<forall>k < length (c # u). \<not> gradSeg kw (drop k (c # cs)))
         \<and> segFix kw (c # cs) = (c # u) @ js ''background: '' @ extractFirstColor (z @ [59])
         \<and> segColor kw (c # cs) = [extractFirstColor (z @ [59])]"
        using b False by simp
      then show ?thesis by blast
    qed
  qed
qed

lemma segFix_no_match:
  assumes kw1: "keyword kw1" and kw2: "keyword kw2"
    and h: "kw1 = kw2 \<or> (\<forall>k. \<not> gradSeg kw1 (drop k y))"
    and col: "\<forall>C \<in> set (segColor kw2 y). \<not> strIncludes C kw1"
  shows "\<not> gradSeg kw1 (drop k (segFix kw2 y))"
proof -
  from segFix_cases [of kw2 y] show ?thesis
  proof
    assume a: "segFix kw2 y = y \<and> segColor kw2 y = [] \<and> (\<forall>k. \<not> gradSeg kw2 (drop k y))"
    then show ?thesis using h by auto
  next
    assume "\<exists>u z. y = u @ z \<and> gradSeg kw2 z \<and> (\<forall>k < length u. \<not> gradSeg kw2 (drop k y))
         \<and> segFix kw2 y = u @ js ''background: '' @ extractFirstColor (z @ [59])
         \<and> segColor kw2 y = [extractFirstColor (z @ [59])]"
    then obtain u z where b: "y = u @ z" "gradSeg kw2 z" "\<forall>k < length u. \<not> gradSeg kw2 (drop k y)"
        "segFix kw2 y = u @ js ''background: '' @ extractFirstColor (z @ [59])"
        "segColor kw2 y = [extractFirstColor (z @ [59])]"
      by blast
    define C where "C = extractFirstColor (z @ [59])"
    have nc: "\<not> strIncludes C kw1" using col b(5) C_def by simp
    show ?thesis
    proof
      assume g: "gradSeg kw1 (drop k (segFix kw2 y))"
      show False
      proof (cases "k < length u")
        case False
        then have "drop k (segFix kw2 y) = drop (k - length u) (js ''background: '' @ C)"
          unfolding b(4) C_def by simp
        moreover have "js ''background: '' @ C
            = take (k - length u) (js ''background: '' @ C) @ drop (k - length u) (js ''background: '' @ C)"
          by (rule append_take_drop_id [symmetric])
        ultimately show False
          using gradSeg_in_replacement [OF kw1, of "drop (k - length u) (js ''background: '' @ C)" C] g nc
          by metis
      next
        case True
        then have d: "drop k (segFix kw2 y) = drop k u @ (js ''background: '' @ C)" "drop k u \<noteq> []"
          unfolding b(4) C_def by simp_all
        have bne: "js ''background: '' @ C \<noteq> []" "hd (js ''background: '' @ C) = 98"
          by (simp_all add: js_def)
        have "gradSeg kw1 (drop k u @ z)"
          using gradSeg_swap_tail [OF kw1 _ d(2) bne gradSeg_ends(4) [OF b(2)] gradSeg_ends(3) [OF b(2)]]
            g d(1) by simp
        then have "gradSeg kw1 (drop k y)" using b(1) True by simp
        then show False using h b(3) True by auto
      qed
    qed
  qed
qed
lemma findFirst_SomeD: "findFirst m s = Some r \<Longrightarrow> \<exists>k. m (drop k s) = Some r"
proof (induction s)
  case Nil
  then show ?case by simp
next
  case (Cons c cs)
  show ?case
  proof (cases "m (c # cs)")
    case None
    then have "findFirst m cs = Some r" using Cons.prems by simp
    then obtain k where "m (drop k cs) = Some r" using Cons.IH by blast
    then have "m (drop (Suc k) (c # cs)) = Some r" by simp
    then show ?thesis by blast
  next
    case (Some a)
    then have "m (drop 0 (c # cs)) = Some r" using Cons.prems by simp
    then show ?thesis by blast
  qed
qed

lemma not_hex_59: "\<not> isHexDigit 59"
  by (simp add: isHexDigit_def)

lemma matchHexColorAt_chars:
  assumes "matchHexColorAt s = Some h"
  shows "59 \<notin> set h"
proof (cases s)
  case Nil
  with assms show ?thesis by (simp add: matchHexColorAt_def)
next
  case (Cons c r)
  have h: "h = c # take 6 (takeWhile isHexDigit r)" "c = 35"
    using assms unfolding matchHexColorAt_def Cons list.case
    by (simp_all split: if_splits)
  have "59 \<notin> set (take 6 (takeWhile isHexDigit r))"
    using not_hex_59 by (auto dest: in_set_takeD set_takeWhileD)
  then show ?thesis using h by simp
qed

lemma matchRgbColorAt_SomeD:
  assumes "matchRgbColorAt s = Some c"
  shows "\<exists>b. s = c @ b \<and> c \<noteq> [] \<and> last c = 41"
proof (cases "stripPrefix (js ''rgb'') s")
  case None
  with assms show ?thesis by (simp add: matchRgbColorAt_def)
next
  case (Some r)
  note r = this
  define r' where "r' = (if r \<noteq> [] \<and> hd r = 97 then tl r else r)"
  have "\<exists>x. r = x @ r'"
  proof (cases "r \<noteq> [] \<and> hd r = 97")
    case True
    then have "r = [97] @ r'" unfolding r'_def by (cases r) auto
    then show ?thesis by blast
  next
    case False
    then have "r = [] @ r'" unfolding r'_def by auto
    then show ?thesis by blast
  qed
  then obtain x where x: "r = x @ r'" by blast
  show ?thesis
  proof (cases "stripPrefix (js ''('') r'")
    case None
    with assms r show ?thesis by (simp add: matchRgbColorAt_def r'_def)
  next
    case (Some r1)
    define t where "t = takeWhile (\<lambda>c. c \<noteq> 41) r1"
    define rest where "rest = dropWhile (\<lambda>c. c \<noteq> 41) r1"
    have m: "(if t \<noteq> [] \<and> rest \<noteq> [] then Some (take (length s - length rest + 1) s) else None) = Some c"
      using assms unfolding matchRgbColorAt_def r option.case Some r'_def [symmetric] Let_def
        t_def rest_def by simp
    then have ne: "t \<noteq> []" "rest \<noteq> []" and c: "c = take (length s - length rest + 1) s"
      by (simp_all split: if_splits)
    have "hd rest = 41" using ne(2) hd_dropWhile [of "\<lambda>c. c \<noteq> 41" r1] unfolding rest_def by auto
    then obtain rest' where rest: "rest = 41 # rest'" using ne(2) by (cases rest) auto
    have r1: "r1 = t @ rest" unfolding t_def rest_def by simp
    define pre where "pre = js ''rgb'' @ x @ js ''(''"
    have s: "s = (pre @ t @ [41]) @ rest'"
      using r Some x r1 rest unfolding stripPrefix_Some pre_def by simp
    have "length s - length rest + 1 = length (pre @ t @ [41])"
      unfolding s rest by simp
    then have "c = pre @ t @ [41]" unfolding c by (metis append_eq_conv_conj s)
    then show ?thesis using s by auto
  qed
qed

lemma colorNames_chars: "n \<in> set colorNames \<Longrightarrow> 59 \<notin> set n"
  by (auto simp: colorNames_def js_def)

lemma lowerAscii_59: "lowerAscii 59 = 59"
  by (simp add: lowerAscii_def)

lemma matchColorNameAt_chars:
  assumes "matchColorNameAt p s = Some n"
  shows "59 \<notin> set n"
proof -
  define P where "P = (\<lambda>n. map lowerAscii (take (length n) s) = n
                              \<and> \<not> (length n < length s \<and> isWordChar (s ! length n)))"
  have a: "(if p then None else (case filter P colorNames of [] \<Rightarrow> None | n # ns \<Rightarrow> Some (take (length n) s))) = Some n"
    using assms unfolding matchColorNameAt_def P_def by simp
  then obtain n0 ns where f: "filter P colorNames = n0 # ns" and n: "n = take (length n0) s"
    by (cases "filter P colorNames") (auto split: if_splits)
  have "n0 \<in> set (filter P colorNames)" using f by simp
  then have n0: "n0 \<in> set colorNames" "map lowerAscii n = n0" using n by (auto simp: P_def)
  show ?thesis
  proof
    assume "59 \<in> set n"
    then have "lowerAscii 59 \<in> set n0" using n0(2) by force
    then show False using colorNames_chars [OF n0(1)] lowerAscii_59 by simp
  qed
qed

lemma findColorName_chars: "findColorName p s = Some n \<Longrightarrow> 59 \<notin> set n"
proof (induction s arbitrary: p)
  case Nil
  then show ?case by simp
next
  case (Cons c cs)
  show ?case
  proof (cases "matchColorNameAt p (c # cs)")
    case None
    then show ?thesis using Cons by simp
  next
    case (Some a)
    then have "a = n" using Cons.prems by simp
    then show ?thesis using matchColorNameAt_chars Some by blast
  qed
qed

lemma prefix_before_last:
  assumes "c @ b = w @ [x]" "c \<noteq> []" "last c \<noteq> x"
  shows "set c \<subseteq> set w"
proof (cases b rule: rev_cases)
  case Nil
  then show ?thesis using assms by auto
next
  case (snoc b' y)
  then have "c @ b' = w" using assms(1) by simp
  then show ?thesis by auto
qed

lemma extractFirstColor_no_semicolon:
  assumes "59 \<notin> set z"
  shows "59 \<notin> set (extractFirstColor (z @ [59]))"
proof (cases "findFirst matchHexColorAt (z @ [59])")
  case (Some h)
  then have "extractFirstColor (z @ [59]) = h" by (simp add: extractFirstColor_def)
  moreover have "59 \<notin> set h" using findFirst_SomeD [OF Some] matchHexColorAt_chars by blast
  ultimately show ?thesis by simp
next
  case None
  note hex = this
  show ?thesis
  proof (cases "findFirst matchRgbColorAt (z @ [59])")
    case (Some c)
    then have e: "extractFirstColor (z @ [59]) = c" using hex by (simp add: extractFirstColor_def)
    from findFirst_SomeD [OF Some] obtain k where "matchRgbColorAt (drop k (z @ [59])) = Some c"
      by blast
    from matchRgbColorAt_SomeD [OF this] obtain b where b: "drop k (z @ [59]) = c @ b" "c \<noteq> []" "last c = 41"
      by blast
    have "k \<le> length z"
    proof (rule ccontr)
      assume "\<not> k \<le> length z"
      then have "drop k (z @ [59]) = []" by simp
      then show False using b by simp
    qed
    then have "c @ b = drop k z @ [59]" using b(1) by simp
    from prefix_before_last [OF this b(2)] b(3) have "set c \<subseteq> set (drop k z)" by simp
    then have "set c \<subseteq> set z" using set_drop_subset by fastforce
    then show ?thesis using assms e by auto
  next
    case None
    note rgb = this
    show ?thesis
    proof (cases "findColorName False (z @ [59])")
      case None
      then show ?thesis using hex rgb by (simp add: extractFirstColor_def js_def)
    next
      case (Some n)
      then have "extractFirstColor (z @ [59]) = n" using hex rgb by (simp add: extractFirstColor_def)
      then show ?thesis using findColorName_chars [OF Some] by simp
    qed
  qed
qed

lemma segFix_no_semicolon: "59 \<notin> set y \<Longrightarrow> 59 \<notin> set (segFix kw y)"
proof (induction y)
  case Nil
  then show ?case by simp
next
  case (Cons c cs)
  show ?case
  proof (cases "gradSeg kw (c # cs)")
    case True
    have "59 \<notin> set (js ''background: '')" by (simp add: js_def)
    then show ?thesis using True extractFirstColor_no_semicolon [OF Cons.prems] by simp
  next
    case False
    then show ?thesis using Cons by simp
  qed
qed

lemma nomatchG_no_semicolon: "59 \<notin> set x \<Longrightarrow> nomatchG kw x"
  unfolding nomatchG_def using matchGradientAt_no_semicolon in_set_dropD by metis

lemma nomatchG_segment:
  assumes kw: "keyword kw" and y: "59 \<notin> set y"
  shows "nomatchG kw (y @ 59 # z) \<longleftrightarrow> (\<forall>k. \<not> gradSeg kw (drop k y)) \<and> nomatchG kw z"
proof
  assume nm: "nomatchG kw (y @ 59 # z)"
  have "\<not> gradSeg kw (drop k y)" for k
  proof
    assume g: "gradSeg kw (drop k y)"
    then have "drop k y \<noteq> []" using gradSeg_Nil by auto
    then have "drop k (y @ 59 # z) = drop k y @ 59 # z" by simp
    moreover have "59 \<notin> set (drop k y)" using y in_set_dropD by metis
    ultimately have "matchGradientAt kw (drop k (y @ 59 # z)) = Some (drop k y @ [59])"
      using matchGradientAt_segment [OF kw, of "drop k y" z] g by simp
    then show False using nm unfolding nomatchG_def by simp
  qed
  moreover have "matchGradientAt kw (drop k z) = None" for k
  proof -
    have "drop k z = drop (k + length (y @ [59])) ((y @ [59]) @ z)" by (simp only: drop_append) simp
    then have "drop k z = drop (k + length (y @ [59])) (y @ 59 # z)" by simp
    then show ?thesis using nm unfolding nomatchG_def by metis
  qed
  ultimately show "(\<forall>k. \<not> gradSeg kw (drop k y)) \<and> nomatchG kw z" unfolding nomatchG_def by blast
next
  assume a: "(\<forall>k. \<not> gradSeg kw (drop k y)) \<and> nomatchG kw z"
  have "matchGradientAt kw (drop k (y @ 59 # z)) = None" for k
  proof (cases "k \<le> length y")
    case True
    then have "drop k (y @ 59 # z) = drop k y @ 59 # z" by simp
    moreover have "59 \<notin> set (drop k y)" using y in_set_dropD by metis
    ultimately show ?thesis using matchGradientAt_segment [OF kw, of "drop k y" z] a by simp
  next
    case False
    then obtain j where "k = length y + Suc j" by (metis add_Suc_right less_imp_Suc_add not_le)
    then have "drop k (y @ 59 # z) = drop j z" by simp
    then show ?thesis using a unfolding nomatchG_def by simp
  qed
  then show "nomatchG kw (y @ 59 # z)" unfolding nomatchG_def by blast
qed
lemma replacedBy_no_semicolon:
  assumes "59 \<notin> set x"
  shows "replacedBy (matchGradientAt kw) x = []"
  using assms
proof (induction x)
  case Nil
  then show ?case by simp
next
  case (Cons c cs)
  then show ?case using matchGradientAt_no_semicolon [of "c # cs" kw] by simp
qed

lemma first_semicolon: "59 \<in> set x \<Longrightarrow> \<exists>y z. x = y @ 59 # z \<and> 59 \<notin> set y"
  by (metis split_list_first)

lemma gradient_pass_no_match:
  assumes kw1: "keyword kw1" and kw2: "keyword kw2"
  shows "kw1 = kw2 \<or> nomatchG kw1 x \<Longrightarrow>
         \<forall>C \<in> set (map extractFirstColor (replacedBy (matchGradientAt kw2) x)). \<not> strIncludes C kw1 \<Longrightarrow>
         nomatchG kw1 (replaceAll (matchGradientAt kw2) gradientReplacement x)"
proof (induction x rule: length_induct)
  case (1 x)
  show ?case
  proof (cases "59 \<in> set x")
    case False
    then show ?thesis using replaceAll_no_semicolon [of x kw2] nomatchG_no_semicolon by simp
  next
    case True
    then obtain y z where x: "x = y @ 59 # z" and y: "59 \<notin> set y" using first_semicolon by blast
    have h: "kw1 = kw2 \<or> ((\<forall>k. \<not> gradSeg kw1 (drop k y)) \<and> nomatchG kw1 z)"
      using "1.prems"(1) nomatchG_segment [OF kw1 y, of z] x by simp
    have col: "\<forall>C \<in> set (segColor kw2 y @ map extractFirstColor (replacedBy (matchGradientAt kw2) z)). \<not> strIncludes C kw1"
      using "1.prems"(2) replacedBy_segment [OF kw2 y, of z] x by simp
    have a: "\<not> gradSeg kw1 (drop k (segFix kw2 y))" for k
      using segFix_no_match [OF kw1 kw2, of y k] h col by auto
    have "length z < length x" using x by simp
    then have b: "nomatchG kw1 (replaceAll (matchGradientAt kw2) gradientReplacement z)"
      using "1.IH" h col by auto
    have "nomatchG kw1 (segFix kw2 y @ 59 # replaceAll (matchGradientAt kw2) gradientReplacement z)"
      using nomatchG_segment [OF kw1 segFix_no_semicolon [OF y]] a b by blast
    then show ?thesis using replaceAll_segment [OF kw2 y, of z] x by simp
  qed
qed

lemma replaceAll_no_match: "(\<forall>k. m (drop k x) = None) \<Longrightarrow> replaceAll m f x = x"
proof (induction x)
  case Nil
  then show ?case by simp
next
  case (Cons c cs)
  have "m (drop 0 (c # cs)) = None" using Cons.prems by blast
  then have m: "m (c # cs) = None" by simp
  have "m (drop k cs) = None" for k using Cons.prems [rule_format, of "Suc k"] by simp
  then show ?case using Cons.IH m by simp
qed

lemma matchGradientAt_prefix:
  assumes kw: "keyword kw" and m: "matchGradientAt kw s = Some m"
  shows "\<exists>y z. s = y @ 59 # z \<and> 59 \<notin> set y \<and> gradSeg kw y"
proof -
  from matchGradientAt_SomeD [OF m] obtain r r1 where r: "s = js ''background:'' @ r"
    "dropWhile isSpace r = kw @ r1" "2 \<le> length (takeWhile (\<lambda>c. c \<noteq> 59) r1)"
    "last (takeWhile (\<lambda>c. c \<noteq> 59) r1) = 41" "dropWhile (\<lambda>c. c \<noteq> 59) r1 \<noteq> []"
    by blast
  define ws where "ws = takeWhile isSpace r"
  define t where "t = takeWhile (\<lambda>c. c \<noteq> 59) r1"
  define rest where "rest = dropWhile (\<lambda>c. c \<noteq> 59) r1"
  have "hd rest = 59" using r(5) hd_dropWhile [of "\<lambda>c. c \<noteq> 59" r1] unfolding rest_def by auto
  then obtain z where z: "rest = 59 # z" using r(5) unfolding rest_def by (cases "dropWhile (\<lambda>c. c \<noteq> 59) r1") auto
  have r1: "r1 = t @ 59 # z" using z unfolding t_def rest_def by (metis takeWhile_dropWhile_id)
  have rr: "r = ws @ kw @ r1" using r(2) unfolding ws_def by (metis takeWhile_dropWhile_id)
  have sp: "\<forall>c \<in> set ws. isSpace c" unfolding ws_def by (auto dest: set_takeWhileD)
  have t59: "59 \<notin> set t" unfolding t_def by (auto dest: set_takeWhileD)
  define y where "y = js ''background:'' @ ws @ kw @ t"
  have "s = y @ 59 # z" unfolding y_def r(1) rr r1 by simp
  moreover have "59 \<notin> set y"
    unfolding y_def using bgp_chars(1) spaces_no_semicolon [OF sp] keyword_facts(3) [OF kw] t59 by simp
  moreover have "gradSeg kw y"
    unfolding gradSeg_def y_def using sp r(3,4) t_def by blast
  ultimately show ?thesis by blast
qed

lemma matchBackgroundImageAt_SomeD:
  assumes "matchBackgroundImageAt s = Some m"
  shows "\<exists>ws u z. s = js ''background-image:'' @ ws @ js ''url('' @ u @ 41 # 59 # z
           \<and> (\<forall>c \<in> set ws. isSpace c) \<and> 41 \<notin> set u \<and> m \<noteq> []"
proof (cases "stripPrefix (js ''background-image:'') s")
  case None
  with assms show ?thesis by (simp add: matchBackgroundImageAt_def)
next
  case (Some r)
  note r = this
  show ?thesis
  proof (cases "stripPrefix (js ''url('') (dropWhile isSpace r)")
    case None
    with assms r show ?thesis by (simp add: matchBackgroundImageAt_def)
  next
    case (Some r1)
    define rest where "rest = dropWhile (\<lambda>c. c \<noteq> 41) r1"
    define u where "u = takeWhile (\<lambda>c. c \<noteq> 41) r1"
    define ws where "ws = takeWhile isSpace r"
    have a: "(if startsWith rest (js '');'') then Some (take (length s - length rest + 2) s) else None) = Some m"
      using assms unfolding matchBackgroundImageAt_def r Some option.case Let_def rest_def by simp
    then have st: "startsWith rest (js '');'')" and m: "m = take (length s - length rest + 2) s"
      by (simp_all split: if_splits)
    from st obtain z where z: "rest = 41 # 59 # z" unfolding startsWith_iff by (auto simp: js_def)
    have r1: "r1 = u @ 41 # 59 # z" using z unfolding u_def rest_def by (metis takeWhile_dropWhile_id)
    have rr: "r = ws @ js ''url('' @ r1"
      using Some unfolding stripPrefix_Some ws_def by (metis takeWhile_dropWhile_id)
    have sp: "\<forall>c \<in> set ws. isSpace c" unfolding ws_def by (auto dest: set_takeWhileD)
    have u41: "41 \<notin> set u" unfolding u_def by (auto dest: set_takeWhileD)
    have s: "s = js ''background-image:'' @ ws @ js ''url('' @ u @ 41 # 59 # z"
      using r unfolding stripPrefix_Some rr r1 by simp
    have "s \<noteq> []" unfolding s by (simp add: js_def)
    then have "m \<noteq> []" unfolding m by (cases s) auto
    then show ?thesis using s sp u41 by blast
  qed
qed

lemma not_space_117: "\<not> isSpace 117"
  by (simp add: isSpace_def)

lemma matchBackgroundImageAt_Some:
  assumes "\<forall>c \<in> set ws. isSpace c" "41 \<notin> set u"
  shows "matchBackgroundImageAt (js ''background-image:'' @ ws @ js ''url('' @ u @ 41 # 59 # z) \<noteq> None"
proof -
  define s where "s = js ''background-image:'' @ ws @ js ''url('' @ u @ 41 # 59 # z"
  have 1: "stripPrefix (js ''background-image:'') s = Some (ws @ js ''url('' @ u @ 41 # 59 # z)"
    unfolding stripPrefix_Some s_def by simp
  have "js ''url('' @ u @ 41 # 59 # z \<noteq> []" "\<not> isSpace (hd (js ''url('' @ u @ 41 # 59 # z))"
    using not_space_117 by (simp_all add: js_def)
  from dropWhile_space_split(1) [OF assms(1) this]
  have 2: "dropWhile isSpace (ws @ js ''url('' @ u @ 41 # 59 # z) = js ''url('' @ u @ 41 # 59 # z" .
  have 3: "stripPrefix (js ''url('') (js ''url('' @ u @ 41 # 59 # z) = Some (u @ 41 # 59 # z)"
    unfolding stripPrefix_Some by simp
  have 4: "dropWhile (\<lambda>c. c \<noteq> 41) (u @ 41 # 59 # z) = 41 # 59 # z"
    using assms(2) by (induction u) auto
  have 5: "startsWith (41 # 59 # z) (js '');'')" unfolding startsWith_iff by (simp add: js_def)
  have "matchBackgroundImageAt s \<noteq> None"
    unfolding matchBackgroundImageAt_def 1 option.case 2 3 Let_def 4 using 5 by simp
  then show ?thesis unfolding s_def .
qed

lemma fixBackgroundImages_Nil: "fixBackgroundImages [] = []"
  by (simp add: fixBackgroundImages_def)

lemma fixBackgroundImages_None:
  "matchBackgroundImageAt (c # cs) = None \<Longrightarrow> fixBackgroundImages (c # cs) = c # fixBackgroundImages cs"
  by (simp add: fixBackgroundImages_def)

lemma fixBackgroundImages_Some:
  assumes "matchBackgroundImageAt (c # cs) = Some m"
  shows "fixBackgroundImages (c # cs)
           = js ''background-color: #f5f5f5'' @ 59 # fixBackgroundImages (drop (length m) (c # cs))"
proof -
  have "m \<noteq> []" using matchBackgroundImageAt_SomeD [OF assms] by blast
  then show ?thesis unfolding fixBackgroundImages_def replaceAll.simps assms option.case
    by (simp add: js_def)
qed

lemma bgColor_chars:
  "59 \<notin> set (js ''background-color: #f5f5f5'')" "41 \<notin> set (js ''background-color: #f5f5f5'')"
  "js ''background-color: #f5f5f5'' \<noteq> []" "last (js ''background-color: #f5f5f5'') = 53"
  "js ''background-color: #f5f5f5'' = 98 # js ''ackground-color: #f5f5f5''"
  "98 \<notin> set (js ''ackground-color: #f5f5f5'')"
  by (simp_all add: js_def)

lemma fixBackgroundImages_first_segment:
  "fixBackgroundImages x = y @ 59 # z \<Longrightarrow> 59 \<notin> set y \<Longrightarrow>
     (\<exists>z0. x = y @ 59 # z0) \<or> (y \<noteq> [] \<and> last y = 53)"
proof (induction x arbitrary: y)
  case Nil
  then show ?case by (simp add: fixBackgroundImages_Nil)
next
  case (Cons c cs)
  show ?case
  proof (cases "matchBackgroundImageAt (c # cs)")
    case None
    then have e: "c # fixBackgroundImages cs = y @ 59 # z"
      using Cons.prems(1) fixBackgroundImages_None by simp
    show ?thesis
    proof (cases y)
      case Nil
      then show ?thesis using e by simp
    next
      case (Cons d y')
      then have "fixBackgroundImages cs = y' @ 59 # z" "59 \<notin> set y'" "c = d"
        using e Cons.prems(2) by simp_all
      from Cons.IH [OF this(1,2)] show ?thesis using Cons \<open>c = d\<close> by auto
    qed
  next
    case (Some m)
    have "js ''background-color: #f5f5f5'' @ 59 # fixBackgroundImages (drop (length m) (c # cs)) = y @ 59 # z"
      using fixBackgroundImages_Some [OF Some] Cons.prems(1) by simp
    from split_at_first [OF bgColor_chars(1) Cons.prems(2) this]
    have "y = js ''background-color: #f5f5f5''" by simp
    then show ?thesis using bgColor_chars(3,4) by simp
  qed
qed
lemma nomatchG_drop: "nomatchG kw x \<Longrightarrow> nomatchG kw (drop n x)"
  unfolding nomatchG_def by simp

lemma nomatchG_Cons:
  "nomatchG kw (c # cs) \<longleftrightarrow> matchGradientAt kw (c # cs) = None \<and> nomatchG kw cs"
proof
  assume a: "nomatchG kw (c # cs)"
  have "matchGradientAt kw (drop 0 (c # cs)) = None" using a unfolding nomatchG_def by blast
  moreover have "nomatchG kw (drop 1 (c # cs))" using a by (rule nomatchG_drop)
  ultimately show "matchGradientAt kw (c # cs) = None \<and> nomatchG kw cs" by simp
next
  assume a: "matchGradientAt kw (c # cs) = None \<and> nomatchG kw cs"
  have "matchGradientAt kw (drop k (c # cs)) = None" for k
    using a unfolding nomatchG_def by (cases k) simp_all
  then show "nomatchG kw (c # cs)" unfolding nomatchG_def by blast
qed

lemma nomatchG_append:
  assumes "\<forall>k < length a. matchGradientAt kw (drop k a @ b) = None" "nomatchG kw b"
  shows "nomatchG kw (a @ b)"
proof -
  have "matchGradientAt kw (drop k (a @ b)) = None" for k
  proof (cases "k < length a")
    case True
    then show ?thesis using assms(1) by simp
  next
    case False
    then have "drop k (a @ b) = drop (k - length a) b" by simp
    then show ?thesis using assms(2) unfolding nomatchG_def by simp
  qed
  then show ?thesis unfolding nomatchG_def by blast
qed

lemma fixBackgroundImages_no_gradient:
  assumes kw: "keyword kw"
  shows "nomatchG kw x \<Longrightarrow> nomatchG kw (fixBackgroundImages x)"
proof (induction x rule: length_induct)
  case (1 x)
  show ?case
  proof (cases x)
    case Nil
    then show ?thesis using "1.prems" by (simp add: fixBackgroundImages_Nil)
  next
    case (Cons c cs)
    have nm: "matchGradientAt kw (c # cs) = None" "nomatchG kw cs"
      using "1.prems" unfolding Cons nomatchG_Cons by simp_all
    show ?thesis
    proof (cases "matchBackgroundImageAt (c # cs)")
      case None
      have "length cs < length x" using Cons by simp
      then have tl: "nomatchG kw (fixBackgroundImages cs)" using "1.IH" nm(2) by blast
      have "matchGradientAt kw (c # fixBackgroundImages cs) = None"
      proof (rule ccontr)
        assume "matchGradientAt kw (c # fixBackgroundImages cs) \<noteq> None"
        then obtain m where "matchGradientAt kw (c # fixBackgroundImages cs) = Some m" by blast
        from matchGradientAt_prefix [OF kw this] obtain y z where
          y: "c # fixBackgroundImages cs = y @ 59 # z" "59 \<notin> set y" "gradSeg kw y"
          by blast
        obtain y' where y': "y = c # y'" using y(1) gradSeg_ends(1) [OF y(3)] by (cases y) auto
        then have "fixBackgroundImages cs = y' @ 59 # z" "59 \<notin> set y'" using y by simp_all
        from fixBackgroundImages_first_segment [OF this]
        show False
        proof
          assume "\<exists>z0. cs = y' @ 59 # z0"
          then obtain z0 where "c # cs = y @ 59 # z0" using y' by auto
          then show False using matchGradientAt_segment [OF kw y(2), of z0] y(3) nm(1) by simp
        next
          assume "y' \<noteq> [] \<and> last y' = 53"
          then have "last y = 53" using y' by simp
          then show False using gradSeg_ends(3) [OF y(3)] by simp
        qed
      qed
      then have "nomatchG kw (c # fixBackgroundImages cs)" using tl nomatchG_Cons by blast
      then show ?thesis unfolding Cons fixBackgroundImages_None [OF None] .
    next
      case (Some m)
      have "m \<noteq> []" using matchBackgroundImageAt_SomeD [OF Some] by blast
      then have "length (drop (length m) (c # cs)) < length x" unfolding Cons by (cases m) simp_all
      moreover have "nomatchG kw (drop (length m) (c # cs))"
        using nomatchG_drop [OF "1.prems", of "length m"] unfolding Cons .
      ultimately have tl: "nomatchG kw (fixBackgroundImages (drop (length m) (c # cs)))"
        using "1.IH" by blast
      define out where "out = fixBackgroundImages (drop (length m) (c # cs))"
      define R0 where "R0 = js ''background-color: #f5f5f5''"
      have R0: "59 \<notin> set R0" "R0 \<noteq> []" "last R0 = 53" unfolding R0_def using bgColor_chars by simp_all
      have "matchGradientAt kw (drop k (R0 @ [59]) @ out) = None" if k: "k < length (R0 @ [59])" for k
      proof (rule ccontr)
        assume "matchGradientAt kw (drop k (R0 @ [59]) @ out) \<noteq> None"
        then obtain m' where "matchGradientAt kw (drop k (R0 @ [59]) @ out) = Some m'" by blast
        from matchGradientAt_prefix [OF kw this] obtain y z where
          y: "drop k (R0 @ [59]) @ out = y @ 59 # z" "59 \<notin> set y" "gradSeg kw y"
          by blast
        have "k \<le> length R0" using k by simp
        then have eq: "drop k R0 @ 59 # out = y @ 59 # z" using y(1) by simp
        have d59: "59 \<notin> set (drop k R0)" using R0(1) in_set_dropD by metis
        from split_at_first [OF d59 y(2) eq] have e: "drop k R0 = y" by simp
        then have "drop k R0 \<noteq> []" using gradSeg_ends(1) [OF y(3)] by simp
        then have "last (drop k R0) = last R0" by simp
        then show False using e gradSeg_ends(3) [OF y(3)] R0(3) by simp
      qed
      moreover have "nomatchG kw out" using tl out_def by simp
      ultimately have "nomatchG kw ((R0 @ [59]) @ out)"
        using nomatchG_append [of "R0 @ [59]" kw out] by blast
      then have "nomatchG kw (js ''background-color: #f5f5f5'' @ 59 # out)" unfolding R0_def by simp
      then show ?thesis unfolding Cons fixBackgroundImages_Some [OF Some] out_def .
    qed
  qed
qed

lemma fixBackgroundImages_head_semicolon:
  assumes "fixBackgroundImages x = 59 # z"
  shows "\<exists>z2. x = 59 # z2"
proof (cases x)
  case Nil
  then show ?thesis using assms by (simp add: fixBackgroundImages_Nil)
next
  case (Cons c cs)
  show ?thesis
  proof (cases "matchBackgroundImageAt (c # cs)")
    case None
    then show ?thesis using assms Cons fixBackgroundImages_None by simp
  next
    case (Some m)
    then show ?thesis using assms Cons fixBackgroundImages_Some [OF Some] bgColor_chars(5) by simp
  qed
qed

lemma fixBackgroundImages_first_paren:
  "fixBackgroundImages x = v @ 41 # 59 # z \<Longrightarrow> 41 \<notin> set v \<Longrightarrow>
     \<exists>v2 z2. x = v2 @ 41 # 59 # z2 \<and> 41 \<notin> set v2
        \<and> (v2 = v \<or> (\<exists>s t t2. v = s @ 98 # t \<and> v2 = s @ 98 # t2))"
proof (induction x arbitrary: v)
  case Nil
  then show ?case by (simp add: fixBackgroundImages_Nil)
next
  case (Cons c cs)
  show ?case
  proof (cases "matchBackgroundImageAt (c # cs)")
    case None
    then have e: "c # fixBackgroundImages cs = v @ 41 # 59 # z"
      using Cons.prems(1) fixBackgroundImages_None by simp
    show ?thesis
    proof (cases v)
      case Nil
      then have "c = 41" "fixBackgroundImages cs = 59 # z" using e by simp_all
      then obtain z2 where "cs = 59 # z2" using fixBackgroundImages_head_semicolon by blast
      then have "c # cs = [] @ 41 # 59 # z2 \<and> 41 \<notin> set ([] :: jsstring) \<and> [] = v"
        using \<open>c = 41\<close> Nil by simp
      then show ?thesis by blast
    next
      case (Cons d v')
      then have v': "fixBackgroundImages cs = v' @ 41 # 59 # z" "41 \<notin> set v'" and cd: "c = d" "c \<noteq> 41"
        using e Cons.prems(2) by auto
      from Cons.IH [OF v'] obtain v2 z2 where
        i: "cs = v2 @ 41 # 59 # z2" "41 \<notin> set v2" "v2 = v' \<or> (\<exists>s t t2. v' = s @ 98 # t \<and> v2 = s @ 98 # t2)"
        by blast
      have "c # v2 = v \<or> (\<exists>s t t2. v = s @ 98 # t \<and> c # v2 = s @ 98 # t2)"
        using i(3)
      proof
        assume "v2 = v'"
        then show ?thesis using Cons cd by simp
      next
        assume "\<exists>s t t2. v' = s @ 98 # t \<and> v2 = s @ 98 # t2"
        then obtain s t t2 where "v' = s @ 98 # t" "v2 = s @ 98 # t2" by blast
        then have "v = (c # s) @ 98 # t \<and> c # v2 = (c # s) @ 98 # t2" using Cons cd by simp
        then show ?thesis by blast
      qed
      moreover have "c # cs = (c # v2) @ 41 # 59 # z2" "41 \<notin> set (c # v2)" using i cd by simp_all
      ultimately show ?thesis by blast
    qed
  next
    case (Some m)
    from matchBackgroundImageAt_SomeD [OF Some] obtain ws u z2 where
      m: "c # cs = js ''background-image:'' @ ws @ js ''url('' @ u @ 41 # 59 # z2"
         "\<forall>c \<in> set ws. isSpace c" "41 \<notin> set u"
      by blast
    define v2 where "v2 = js ''background-image:'' @ ws @ js ''url('' @ u"
    have not41: "\<not> isSpace 41" by (simp add: isSpace_def)
    have ws41: "41 \<notin> set ws" using m(2) not41 by blast
    have a: "c # cs = v2 @ 41 # 59 # z2" unfolding v2_def using m(1) by simp
    have b: "41 \<notin> set v2" unfolding v2_def using ws41 m(3) by (simp add: js_def)
    have c: "v2 = [] @ 98 # (js ''ackground-image:'' @ ws @ js ''url('' @ u)"
      unfolding v2_def by (simp add: js_def)
    define out where "out = fixBackgroundImages (drop (length m) (c # cs))"
    have "js ''background-color: #f5f5f5'' @ 59 # out = v @ 41 # 59 # z"
      using fixBackgroundImages_Some [OF Some] Cons.prems(1) out_def by simp
    then have "98 # (js ''ackground-color: #f5f5f5'' @ 59 # out) = v @ 41 # 59 # z"
      using bgColor_chars(5) by simp
    then obtain t where "v = [] @ 98 # t" by (cases v) auto
    then show ?thesis using a b c by blast
  qed
qed

lemma prefix_before_first:
  assumes "a @ b = s @ x # t" "x \<notin> set a"
  shows "\<exists>s'. s = a @ s'"
  using assms
proof (induction a arbitrary: s)
  case Nil
  then show ?case by simp
next
  case (Cons a1 a)
  then obtain s1 where s: "s = a1 # s1" by (cases s) auto
  then have "a @ b = s1 @ x # t" "x \<notin> set a" using Cons.prems by simp_all
  from Cons.IH [OF this] show ?case using s by auto
qed

lemma fixBackgroundImages_head_kept:
  assumes "matchBackgroundImageAt (c # fixBackgroundImages cs) \<noteq> None"
  shows "matchBackgroundImageAt (c # cs) \<noteq> None"
proof -
  from assms obtain m where "matchBackgroundImageAt (c # fixBackgroundImages cs) = Some m" by blast
  from matchBackgroundImageAt_SomeD [OF this] obtain ws u z where
    m: "c # fixBackgroundImages cs = js ''background-image:'' @ ws @ js ''url('' @ u @ 41 # 59 # z"
       "\<forall>c \<in> set ws. isSpace c" "41 \<notin> set u"
    by blast
  define P' where "P' = js ''ackground-image:'' @ ws @ js ''url(''"
  have not41: "\<not> isSpace 41" by (simp add: isSpace_def)
  have P'41: "41 \<notin> set P'" unfolding P'_def using m(2) not41 by (auto simp: js_def)
  have P'98: "98 \<notin> set P'" unfolding P'_def using spaces_no_semicolon [OF m(2)] by (simp add: js_def)
  have P: "js ''background-image:'' @ ws @ js ''url('' @ w = 98 # P' @ w" for w
    unfolding P'_def by (simp add: js_def)
  have c: "c = 98" and out: "fixBackgroundImages cs = (P' @ u) @ 41 # 59 # z"
    using m(1) unfolding P by simp_all
  have "41 \<notin> set (P' @ u)" using P'41 m(3) by simp
  from fixBackgroundImages_first_paren [OF out this] obtain v2 z2 where
    v: "cs = v2 @ 41 # 59 # z2" "41 \<notin> set v2"
       "v2 = P' @ u \<or> (\<exists>s t t2. P' @ u = s @ 98 # t \<and> v2 = s @ 98 # t2)"
    by blast
  have "\<exists>u2. v2 = P' @ u2"
    using v(3)
  proof
    assume "v2 = P' @ u"
    then show ?thesis by blast
  next
    assume "\<exists>s t t2. P' @ u = s @ 98 # t \<and> v2 = s @ 98 # t2"
    then obtain s t t2 where s: "P' @ u = s @ 98 # t" "v2 = s @ 98 # t2" by blast
    from prefix_before_first [OF s(1) P'98] obtain s' where "s = P' @ s'" by blast
    then have "v2 = P' @ (s' @ 98 # t2)" using s(2) by simp
    then show ?thesis by blast
  qed
  then obtain u2 where u2: "v2 = P' @ u2" by blast
  then have "41 \<notin> set u2" using v(2) by simp
  moreover have "c # cs = js ''background-image:'' @ ws @ js ''url('' @ u2 @ 41 # 59 # z2"
    unfolding P using c v(1) u2 by simp
  ultimately show ?thesis using matchBackgroundImageAt_Some [OF m(2)] by metis
qed

lemma matchBackgroundImageAt_head:
  assumes "matchBackgroundImageAt s \<noteq> None"
  shows "\<exists>r. s = js ''background-i'' @ r"
proof -
  from assms obtain m where "matchBackgroundImageAt s = Some m" by blast
  from matchBackgroundImageAt_SomeD [OF this] obtain ws u z where
    "s = js ''background-image:'' @ ws @ js ''url('' @ u @ 41 # 59 # z" by blast
  then have "s = js ''background-i'' @ (js ''mage:'' @ ws @ js ''url('' @ u @ 41 # 59 # z)"
    by (simp add: js_def)
  then show ?thesis by blast
qed

lemma bgColor_no_match:
  assumes "k < length (js ''background-color: #f5f5f5;'')"
  shows "matchBackgroundImageAt (drop k (js ''background-color: #f5f5f5;'') @ out) = None"
proof (rule ccontr)
  assume "matchBackgroundImageAt (drop k (js ''background-color: #f5f5f5;'') @ out) \<noteq> None"
  from matchBackgroundImageAt_head [OF this] obtain r where
    r: "drop k (js ''background-color: #f5f5f5;'') @ out = js ''background-i'' @ r" by blast
  show False
  proof (cases k)
    case 0
    then show False using r by (simp add: js_def)
  next
    case (Suc j)
    have "drop k (js ''background-color: #f5f5f5;'') \<noteq> []" using assms by simp
    then have "hd (drop k (js ''background-color: #f5f5f5;'')) = 98"
      using r by (cases "drop k (js ''background-color: #f5f5f5;'')") (auto simp: js_def)
    moreover have "hd (drop k (js ''background-color: #f5f5f5;'')) \<in> set (drop k (js ''background-color: #f5f5f5;''))"
      using \<open>drop k (js ''background-color: #f5f5f5;'') \<noteq> []\<close> by simp
    moreover have "drop k (js ''background-color: #f5f5f5;'') = drop j (js ''ackground-color: #f5f5f5;'')"
      using Suc by (simp add: js_def)
    moreover have "98 \<notin> set (js ''ackground-color: #f5f5f5;'')" by (simp add: js_def)
    ultimately show False using in_set_dropD by metis
  qed
qed

lemma fixBackgroundImages_no_match:
  "matchBackgroundImageAt (drop k (fixBackgroundImages x)) = None"
proof (induction x arbitrary: k rule: length_induct)
  case (1 x)
  show ?case
  proof (cases x)
    case Nil
    have "matchBackgroundImageAt [] = None" by (simp add: matchBackgroundImageAt_def stripPrefix_def js_def)
    then show ?thesis using Nil by (simp add: fixBackgroundImages_Nil)
  next
    case (Cons c cs)
    show ?thesis
    proof (cases "matchBackgroundImageAt (c # cs)")
      case None
      have out: "fixBackgroundImages x = c # fixBackgroundImages cs"
        using None Cons fixBackgroundImages_None by simp
      show ?thesis
      proof (cases k)
        case 0
        have "matchBackgroundImageAt (c # fixBackgroundImages cs) = None"
          using fixBackgroundImages_head_kept [of c cs] None by blast
        then show ?thesis using 0 out by simp
      next
        case (Suc j)
        then show ?thesis using out "1.IH" Cons by simp
      qed
    next
      case (Some m)
      have "m \<noteq> []" using matchBackgroundImageAt_SomeD [OF Some] by blast
      then have less: "length (drop (length m) (c # cs)) < length x" using Cons by simp
      define out where "out = fixBackgroundImages (drop (length m) (c # cs))"
      define R where "R = js ''background-color: #f5f5f5;''"
      have e: "fixBackgroundImages x = R @ out"
        using fixBackgroundImages_Some [OF Some] Cons out_def R_def by (simp add: js_def)
      show ?thesis
      proof (cases "k < length R")
        case True
        then have "drop k (R @ out) = drop k R @ out" by simp
        then show ?thesis using bgColor_no_match True e R_def by simp
      next
        case False
        then have "drop k (R @ out) = drop (k - length R) out" by simp
        then show ?thesis using "1.IH" less e out_def by simp
      qed
    qed
  qed
qed

lemma keyword_linear: "keyword (js ''linear-gradient('')"
  and keyword_radial: "keyword (js ''radial-gradient('')"
  by (simp_all add: keyword_def)

lemma fixStyle_idempotent:
  assumes "plainColors cssContent"
  shows "fixStyle (fixStyle cssContent) = fixStyle cssContent"
proof -
  define lin where "lin = js ''linear-gradient(''"
  define rad where "rad = js ''radial-gradient(''"
  define x1 where "x1 = replaceAll (matchGradientAt lin) gradientReplacement cssContent"
  define x2 where "x2 = replaceAll (matchGradientAt rad) gradientReplacement x1"
  define x3 where "x3 = fixBackgroundImages x2"
  have kl: "keyword lin" and kr: "keyword rad"
    unfolding lin_def rad_def by (rule keyword_linear, rule keyword_radial)
  have x1: "fixLinearGradients cssContent = x1"
    by (simp add: fixLinearGradients_def x1_def lin_def)
  have x3: "fixStyle cssContent = x3"
    by (simp add: fixStyle_def fixLinearGradients_def fixRadialGradients_def x1_def x2_def x3_def lin_def rad_def)
  have c1: "\<forall>C \<in> set (map extractFirstColor (replacedBy (matchGradientAt lin) cssContent)). \<not> strIncludes C lin"
    using assms unfolding plainColors_def extractedColors_def lin_def by simp
  have c2: "\<forall>C \<in> set (map extractFirstColor (replacedBy (matchGradientAt rad) x1)).
              \<not> strIncludes C lin \<and> \<not> strIncludes C rad"
    using assms unfolding plainColors_def extractedColors_def x1 lin_def rad_def by simp
  have a1: "nomatchG lin x1"
    unfolding x1_def using c1 by (intro gradient_pass_no_match [OF kl kl]) simp_all
  have a2: "nomatchG lin x2"
    unfolding x2_def using a1 c2 by (intro gradient_pass_no_match [OF kl kr]) simp_all
  have a3: "nomatchG rad x2"
    unfolding x2_def using c2 by (intro gradient_pass_no_match [OF kr kr]) simp_all
  have b1: "nomatchG lin x3" unfolding x3_def using a2 by (rule fixBackgroundImages_no_gradient [OF kl])
  have b2: "nomatchG rad x3" unfolding x3_def using a3 by (rule fixBackgroundImages_no_gradient [OF kr])
  have b3: "\<forall>k. matchBackgroundImageAt (drop k x3) = None"
    unfolding x3_def using fixBackgroundImages_no_match by blast
  have "fixLinearGradients x3 = x3"
    unfolding fixLinearGradients_def lin_def [symmetric]
    using b1 unfolding nomatchG_def by (rule replaceAll_no_match)
  moreover have "fixRadialGradients x3 = x3"
    unfolding fixRadialGradients_def rad_def [symmetric]
    using b2 unfolding nomatchG_def by (rule replaceAll_no_match)
  moreover have "fixBackgroundImages x3 = x3"
    unfolding fixBackgroundImages_def using b3 by (rule replaceAll_no_match)
  ultimately have "fixStyle x3 = x3" by (simp add: fixStyle_def)
  then show ?thesis unfolding x3 .
qed

lemma nested_gradient_example:
  "snd (gradientFix [js ''background: linear-gradient(rgb(background: linear-gradient(red));''])
     = [js ''background: rgb(background: linear-gradient(red);'']"
  "gradientFix [js ''background: rgb(background: linear-gradient(red);'']
     = (True, [js ''background: rgb(background: red;''])"
proof -
  have 1: "fixStyle (js ''background: linear-gradient(rgb(background: linear-gradient(red));'')
             = js ''background: rgb(background: linear-gradient(red);''"
    by (simp add: gradient_eval js_eval)
  have 2: "fixStyle (js ''background: rgb(background: linear-gradient(red);'')
             = js ''background: rgb(background: red;''"
    by (simp add: gradient_eval js_eval)
  have 3: "js ''background: rgb(background: red;'' \<noteq> js ''background: rgb(background: linear-gradient(red);''"
    by (simp add: js_def)
  show "snd (gradientFix [js ''background: linear-gradient(rgb(background: linear-gradient(red));''])
     = [js ''background: rgb(background: linear-gradient(red);'']"
    unfolding gradientFix_def Let_def by (simp add: 1)
  show "gradientFix [js ''background: rgb(background: linear-gradient(red);'']
     = (True, [js ''background: rgb(background: red;''])"
    unfolding gradientFix_def Let_def using 3 by (simp add: 2)
qed

lemma gradientFix_second_run:
  assumes "\<forall>cssContent \<in> set styleTexts. plainColors cssContent"
  shows "gradientFix (snd (gradientFix styleTexts)) = (False, snd (gradientFix styleTexts))"
proof -
  have "\<forall>css \<in> set (map fixStyle styleTexts). fixStyle css = css"
    using assms fixStyle_idempotent by auto
  then have "filter (\<lambda>css. fixStyle css \<noteq> css) (map fixStyle styleTexts) = []"
    "map fixStyle (map fixStyle styleTexts) = map fixStyle styleTexts"
    by (simp_all add: filter_empty_conv map_idI)
  then show ?thesis by (simp add: gradientFix_def Let_def)
qed

text \<open>
  Claim C9, as the code has it. Take the texts of the style elements of a document in
  which no colour that the fixer extracts from a gradient contains the name of a gradient
  function with its parenthesis (\<open>plainColors\<close>). Then a second run of the fixer, by a new
  fixer object on the result of the first, leaves every style text as it is and returns
  false: nothing was fixed.

  Without this condition the second run can change the text. In
  \<open>background: linear-gradient(rgb(background: linear-gradient(red));\<close> the first run
  replaces the whole declaration and takes \<open>rgb(background: linear-gradient(red)\<close> for
  its first colour. The result holds a gradient declaration again, which the second run
  replaces: it changes the text and returns true.
\<close>

theorem gradientFix_idempotent:
  "((\<forall>cssContent \<in> set styleTexts. plainColors cssContent) \<longrightarrow>
      gradientFix (snd (gradientFix styleTexts)) = (False, snd (gradientFix styleTexts)))
   \<and> snd (gradientFix [js ''background: linear-gradient(rgb(background: linear-gradient(red));''])
       = [js ''background: rgb(background: linear-gradient(red);'']
   \<and> gradientFix [js ''background: rgb(background: linear-gradient(red);'']
       = (True, [js ''background: rgb(background: red;''])"
  using gradientFix_second_run nested_gradient_example by blast

lemma plainColors_example:
  "plainColors (js ''p { background: linear-gradient(red, blue); background-image: url(a.png); }'')"
proof -
  have r: "replacedBy (matchGradientAt (js ''linear-gradient(''))
            (js ''p { background: linear-gradient(red, blue); background-image: url(a.png); }'')
          = [js ''background: linear-gradient(red, blue);'']"
    by (simp add: matchGradientAt_def js_eval)
  have f: "fixLinearGradients (js ''p { background: linear-gradient(red, blue); background-image: url(a.png); }'')
          = js ''p { background: red; background-image: url(a.png); }''"
    by (simp add: gradient_eval js_eval)
  have r2: "replacedBy (matchGradientAt (js ''radial-gradient(''))
            (js ''p { background: red; background-image: url(a.png); }'') = []"
    by (simp add: matchGradientAt_def js_eval)
  have e: "extractFirstColor (js ''background: linear-gradient(red, blue);'') = js ''red''"
    by (simp add: gradient_eval js_eval)
  show ?thesis
    unfolding plainColors_def extractedColors_def r f r2 by (simp add: e) (simp add: js_def)
qed

theorem gradientFix_idempotent_witness:
  "gradientFix (snd (gradientFix
      [js ''p { background: linear-gradient(red, blue); background-image: url(a.png); }'']))
   = (False, [js ''p { background: red; background-color: #f5f5f5; }''])"
proof -
  have f: "fixStyle (js ''p { background: linear-gradient(red, blue); background-image: url(a.png); }'')
          = js ''p { background: red; background-color: #f5f5f5; }''"
    by (simp add: gradient_eval js_eval)
  have "snd (gradientFix [js ''p { background: linear-gradient(red, blue); background-image: url(a.png); }''])
          = [js ''p { background: red; background-color: #f5f5f5; }'']"
    by (simp add: gradientFix_def f)
  then show ?thesis
    using gradientFix_idempotent
      [of "[js ''p { background: linear-gradient(red, blue); background-image: url(a.png); }'']",
       THEN conjunct1]
      plainColors_example
    by simp
qed

subsection \<open>TextElementBorderFixer\<close>

lemma findStyleForClass_Some:
  "findStyleForClass ss c = Some i \<Longrightarrow> i < length ss \<and> strIncludes (ss ! i) (js ''.'' @ c)"
proof -
  assume a: "findStyleForClass ss c = Some i"
  then obtain others where "filter (\<lambda>i. strIncludes (ss ! i) (js ''.'' @ c)) [0 ..< length ss] = i # others"
    by (auto simp: findStyleForClass_def split: list.splits)
  then have "i \<in> set (filter (\<lambda>i. strIncludes (ss ! i) (js ''.'' @ c)) [0 ..< length ss])"
    by simp
  then show ?thesis by simp
qed

lemma compileFrom_plain:
  "regexPlain cs \<Longrightarrow> compileFrom a q st cs = Inr ((a, q) # map (\<lambda>c. (Lit c, Once)) cs)"
proof (induction cs arbitrary: a q st)
  case Nil
  then show ?case by simp
next
  case (Cons c cs)
  have c: "c \<notin> {36, 40, 41, 42, 43, 46, 63, 91, 92, 93, 94, 123, 124, 125}" and cs: "regexPlain cs"
    using Cons.prems by (simp_all add: regexPlain_def)
  have "compileFrom (Lit c) Once Bare cs = Inr ((Lit c, Once) # map (\<lambda>c. (Lit c, Once)) cs)"
    using cs by (rule Cons.IH)
  then show ?case using c by simp
qed

lemma matchItems_literals:
  "matchItems (map (\<lambda>c. (Lit c, Once)) p) k s = (case stripPrefix p s of None \<Rightarrow> None | Some r \<Rightarrow> k r)"
proof (induction p arbitrary: s)
  case Nil
  then show ?case by (simp add: stripPrefix_def)
next
  case (Cons c p)
  show ?case
  proof (cases s)
    case Nil
    then show ?thesis by (simp add: stripPrefix_def)
  next
    case (Cons d ds)
    then show ?thesis using Cons.IH [of ds] by (simp add: stripPrefix_def)
  qed
qed

lemma classRegexAt_plain:
  assumes "regexPlain c"
  shows "\<exists>items. compileClassRegex c = Inr items \<and> (\<forall>s. classRegexAt items s = classRuleAt c s)"
proof -
  define items where "items = map (\<lambda>c. (Lit c, Once)) (js ''.'' @ c)"
  have "compileClassRegex c = Inr items"
    using compileFrom_plain [OF assms, of "Lit 46" Once Bare]
    by (simp add: compileClassRegex_def items_def js_def)
  moreover have "classRegexAt items s = classRuleAt c s" for s
    unfolding classRegexAt_def items_def matchItems_literals classRuleAt_def ruleTail_def
    by (simp add: Let_def split: option.splits)
  ultimately show ?thesis by blast
qed

lemma separateStyles_plain:
  assumes "regexPlain c"
  shows "separateStyles css c =
           Inr (case findFirst (classRuleAt c) css of
                  None \<Rightarrow> ([], [])
                | Some (matched, block) \<Rightarrow>
                    (joinWith str_line_sep (filter (\<lambda>l. \<not> isContainerStyle l) (styleLines block)),
                     joinWith str_line_sep (filter isContainerStyle (styleLines block))))"
proof -
  from classRegexAt_plain [OF assms] obtain items where
    i: "compileClassRegex c = Inr items" "\<forall>s. classRegexAt items s = classRuleAt c s"
    by blast
  then have "classRegexAt items = classRuleAt c" by auto
  then show ?thesis using i(1) by (simp add: separateStyles_def split: option.splits)
qed

lemma no_container_styles:
  assumes "regexPlain c" "css \<in> set ss" "\<not> hasContainerRule ss c"
  shows "\<exists>t. separateStyles css c = Inr (t, [])"
proof (cases "findFirst (classRuleAt c) css")
  case None
  then show ?thesis using separateStyles_plain [OF assms(1), of css] by simp
next
  case (Some mb)
  obtain matched block where mb: "mb = (matched, block)" by (cases mb)
  have "\<not> (\<exists>line \<in> set (styleLines block). isContainerStyle line)"
    using assms(2,3) Some mb unfolding hasContainerRule_def by force
  then have "filter isContainerStyle (styleLines block) = []"
    by (simp add: filter_empty_conv)
  then show ?thesis using separateStyles_plain [OF assms(1), of css] Some mb by simp
qed

lemma fixElement_unchanged:
  assumes "\<And>element. nodeAt snapshot q = Some element \<Longrightarrow>
             classNameOf element = []
             \<or> (regexPlain (classNameOf element) \<and> \<not> hasContainerRule (st_styles st) (classNameOf element))"
  shows "fixElement tagName snapshot st q = Inr st"
proof (cases "nodeAt snapshot q")
  case None
  then show ?thesis by (simp add: fixElement_def)
next
  case (Some element)
  note e = this
  show ?thesis
  proof (cases "classNameOf element = []")
    case True
    then show ?thesis using e by (simp add: fixElement_def)
  next
    case False
    then have p: "regexPlain (classNameOf element)"
      and h: "\<not> hasContainerRule (st_styles st) (classNameOf element)"
      using assms [OF e] by simp_all
    show ?thesis
    proof (cases "findStyleForClass (st_styles st) (classNameOf element)")
      case None
      then show ?thesis using e False by (simp add: fixElement_def)
    next
      case (Some i)
      then have "st_styles st ! i \<in> set (st_styles st)"
        using findStyleForClass_Some by (metis nth_mem)
      from no_container_styles [OF p this h] obtain t where
        "separateStyles (st_styles st ! i) (classNameOf element) = Inr (t, [])" by blast
      then show ?thesis
        using e False Some by (simp add: fixElement_def trim_def trimStart_def trimEnd_def)
    qed
  qed
qed

lemma fixElements_unchanged:
  assumes "\<And>q element. q \<in> set qs \<Longrightarrow> nodeAt snapshot q = Some element \<Longrightarrow>
             classNameOf element = []
             \<or> (regexPlain (classNameOf element) \<and> \<not> hasContainerRule (st_styles st) (classNameOf element))"
  shows "fixElements tagName snapshot st qs = Inr st"
  using assms
proof (induction qs)
  case Nil
  then show ?case by simp
next
  case (Cons q qs)
  have "fixElement tagName snapshot st q = Inr st"
    using Cons.prems by (intro fixElement_unchanged) auto
  moreover have "fixElements tagName snapshot st qs = Inr st"
    using Cons.prems by (intro Cons.IH) auto
  ultimately show ?case by simp
qed

lemma fixTag_unchanged:
  assumes "\<And>q element. q \<in> set (elementPaths (map lowerAscii tagName) 0 (tree doc)) \<Longrightarrow>
             nodeAt (tree doc) q = Some element \<Longrightarrow>
             classNameOf element = []
             \<or> (regexPlain (classNameOf element) \<and> \<not> hasContainerRule (styles doc) (classNameOf element))"
  shows "fixTag tagName doc = Inr (doc, 0)"
proof -
  have "fixElements tagName (tree doc)
          \<lparr>st_styles = styles doc, st_tree = tree doc, st_wrapped = [], st_fixCount = 0\<rparr>
          (elementPaths (map lowerAscii tagName) 0 (tree doc))
        = Inr \<lparr>st_styles = styles doc, st_tree = tree doc, st_wrapped = [], st_fixCount = 0\<rparr>"
    using assms by (intro fixElements_unchanged) auto
  then show ?thesis by (simp add: fixTag_def)
qed

lemma fixTags_unchanged:
  assumes "\<And>tagName q element. tagName \<in> set tagNames \<Longrightarrow>
             q \<in> set (elementPaths (map lowerAscii tagName) 0 (tree doc)) \<Longrightarrow>
             nodeAt (tree doc) q = Some element \<Longrightarrow>
             classNameOf element = []
             \<or> (regexPlain (classNameOf element) \<and> \<not> hasContainerRule (styles doc) (classNameOf element))"
    and "\<And>tagName. tagName \<in> set tagNames \<Longrightarrow> tagName = [] \<or> \<not> isDigit (hd tagName)"
  shows "fixTags tagNames doc n fixedTags = Inr (doc, n, fixedTags)"
  using assms
proof (induction tagNames)
  case Nil
  then show ?case by simp
next
  case (Cons t ts)
  have "fixTag t doc = Inr (doc, 0)"
    using Cons.prems(1) by (intro fixTag_unchanged) auto
  moreover have "t = [] \<or> \<not> isDigit (hd t)" using Cons.prems(2) by simp
  moreover have "fixTags ts doc n fixedTags = Inr (doc, n, fixedTags)"
    using Cons.prems by (intro Cons.IH) auto
  ultimately show ?case by auto
qed

lemmas border_eval = str_text_element_def str_has_def styleTypes_def matchTextElementAt_def
  borderCanFix_def classNameOf_def

lemma compile_a_plus_b:
  "compileClassRegex (js ''a+b'') = Inr [(Lit 46, Once), (Lit 97, Plus True), (Lit 98, Once)]"
  by (simp add: compileClassRegex_def js_def)

lemma regex_a_plus_b:
  "findFirst (classRegexAt [(Lit 46, Once), (Lit 97, Plus True), (Lit 98, Once)])
     (js ''.a+b{} .ab{border:1px solid red}'')
   = Some (js ''.ab{border:1px solid red}'', js ''border:1px solid red'')"
  by (simp add: classRegexAt_def ruleTail_def js_eval)

lemma rule_a_plus_b:
  "findFirst (classRuleAt (js ''a+b'')) (js ''.a+b{} .ab{border:1px solid red}'') = None"
  by (simp add: classRuleAt_def js_eval)

lemma separate_a_plus_b:
  "separateStyles (js ''.a+b{} .ab{border:1px solid red}'') (js ''a+b'')
     = Inr ([], js ''border:1px solid red'')"
proof -
  have "styleLines (js ''border:1px solid red'') = [js ''border:1px solid red'']"
    by (simp add: styleLines_def js_eval)
  moreover have "isContainerStyle (js ''border:1px solid red'')"
    by (simp add: isContainerStyle_def containerStyleProps_def js_eval)
  ultimately show ?thesis
    by (simp add: separateStyles_def compile_a_plus_b regex_a_plus_b)
qed

lemma update_a_plus_b:
  "updateStyles (js ''.a+b{} .ab{border:1px solid red}'') (js ''a+b'') [] (js ''border:1px solid red'') (js ''p'')
     = Inr (js ''.a+b{} '' @ replicate 8 32 @ js ''.a+b {'' @ [10] @ replicate 12 32
            @ js ''border:1px solid red;'' @ [10] @ replicate 8 32 @ js ''}'' @ [10])"
  unfolding updateStyles_def compile_a_plus_b
  by (simp add: classRegexAt_def ruleTail_def js_eval)

lemma fixElement_a_plus_b:
  "fixElement (js ''p'') [DElement (js ''p'') [(js ''class'', js ''a+b'')] [DText (js ''x'')]]
     \<lparr>st_styles = [js ''.a+b{} .ab{border:1px solid red}''],
      st_tree = [DElement (js ''p'') [(js ''class'', js ''a+b'')] [DText (js ''x'')]],
      st_wrapped = [], st_fixCount = 0\<rparr> [0]
   = Inr \<lparr>st_styles = [js ''.a+b{} '' @ replicate 8 32 @ js ''.a+b {'' @ [10] @ replicate 12 32
                          @ js ''border:1px solid red;'' @ [10] @ replicate 8 32 @ js ''}'' @ [10]],
          st_tree = [DElement (js ''div'') [(js ''class'', js ''a+b'')] [DElement (js ''p'') [] [DText (js ''x'')]]],
          st_wrapped = [[0]], st_fixCount = 1\<rparr>"
proof -
  have c: "classNameOf (DElement (js ''p'') [(js ''class'', js ''a+b'')] [DText (js ''x'')]) = js ''a+b''"
    by (simp add: classNameOf_def)
  have f: "findStyleForClass [js ''.a+b{} .ab{border:1px solid red}''] (js ''a+b'') = Some 0"
    by (simp add: findStyleForClass_def js_def)
  have t: "trim (js ''border:1px solid red'') \<noteq> []" "js ''a+b'' \<noteq> []"
    by (simp_all add: js_eval)
  have w: "wrapElement (DElement (js ''p'') [(js ''class'', js ''a+b'')] [DText (js ''x'')]) (js ''a+b'') (js ''p'')
             = DElement (js ''div'') [(js ''class'', js ''a+b'')] [DElement (js ''p'') [] [DText (js ''x'')]]"
    by (simp add: wrapElement_def lowerAscii_def js_def)
  show ?thesis
    unfolding fixElement_def by (simp add: c f t w separate_a_plus_b update_a_plus_b Let_def)
qed

lemma borderFix_a_plus_b:
  "borderFix [js ''p''] [0x8FB9, 0x6846]
     \<lparr>styles = [js ''.a+b{} .ab{border:1px solid red}''],
      tree = [DElement (js ''p'') [(js ''class'', js ''a+b'')] [DText (js ''x'')]]\<rparr>
   = Inr (True,
       [0x5C06] @ js ''1'' @ [0x4E2A] @ js ''<p>'' @ [0x5143, 0x7D20, 0x7684, 0x8FB9, 0x6846,
         0x6837, 0x5F0F, 0x79FB, 0x81F3, 0x5916, 0x5C42] @ js ''<div>'',
       \<lparr>styles = [js ''.a+b{} '' @ replicate 8 32 @ js ''.a+b {'' @ [10] @ replicate 12 32
                    @ js ''border:1px solid red;'' @ [10] @ replicate 8 32 @ js ''}'' @ [10]],
        tree = [DElement (js ''div'') [(js ''class'', js ''a+b'')] [DElement (js ''p'') [] [DText (js ''x'')]]]\<rparr>)"
proof -
  have l: "map lowerAscii (js ''p'') = js ''p''" by (simp add: lowerAscii_def js_def)
  have p: "elementPaths (js ''p'') 0 [DElement (js ''p'') [(js ''class'', js ''a+b'')] [DText (js ''x'')]] = [[0]]"
    by simp
  have n: "natToString 1 = js ''1''" by (simp add: natToString.simps js_def)
  have d: "\<not> isDigit (hd (js ''p''))" by (simp add: js_eval)
  have t: "fixTag (js ''p'')
      \<lparr>styles = [js ''.a+b{} .ab{border:1px solid red}''],
       tree = [DElement (js ''p'') [(js ''class'', js ''a+b'')] [DText (js ''x'')]]\<rparr>
     = Inr (\<lparr>styles = [js ''.a+b{} '' @ replicate 8 32 @ js ''.a+b {'' @ [10] @ replicate 12 32
                    @ js ''border:1px solid red;'' @ [10] @ replicate 8 32 @ js ''}'' @ [10]],
        tree = [DElement (js ''div'') [(js ''class'', js ''a+b'')] [DElement (js ''p'') [] [DText (js ''x'')]]]\<rparr>, 1)"
    unfolding fixTag_def by (simp add: l p fixElement_a_plus_b)
  show ?thesis
    unfolding borderFix_def by (simp add: t d n joinWith.simps) (simp add: js_def)
qed

text \<open>
  Claim C10, as the code has it. For an element whose class name has no syntax
  character of regular expressions, a round of the inner loop of
  \<open>TextElementBorderFixer.fix\<close> changes something, the style texts, the tree or the
  count, only if the element has a class attribute that is not empty and some style
  element holds a rule for that class with at least one container declaration. For an
  element without a class (its border, background or shadow can then only come from its
  \<open>style\<close> attribute), and for one with such a class name that has no rule with a
  container declaration in any style element, the round changes nothing. And when the
  error message matches the pattern of \<open>canFix\<close> but every element of the tags named in
  it is of one of these two kinds, \<open>fix\<close> returns false, with an empty description, and
  leaves the document as it is.

  The class name goes into the regular expression without escaping. So for the class
  \<open>a+b\<close> and the style text \<open>.a+b{} .ab{border:1px solid red}\<close>, where the class has no
  rule with a container declaration, the regular expression finds the rule of another
  class, \<open>ab\<close>, and the \<open>p\<close> element is wrapped in a \<open>div\<close> and \<open>fix\<close> returns true.
\<close>

theorem borderFix_guards:
  "((\<forall>element. nodeAt snapshot q = Some element \<longrightarrow> regexPlain (classNameOf element))
      \<and> fixElement tagName snapshot st q \<noteq> Inr st \<longrightarrow>
      (\<exists>element. nodeAt snapshot q = Some element \<and> classNameOf element \<noteq> []
         \<and> hasContainerRule (st_styles st) (classNameOf element)))
   \<and> ((\<forall>element. nodeAt snapshot q = Some element \<longrightarrow>
          classNameOf element = []
          \<or> (regexPlain (classNameOf element) \<and> \<not> hasContainerRule (st_styles st) (classNameOf element)))
       \<longrightarrow> fixElement tagName snapshot st q = Inr st)
   \<and> (borderCanFix errorMessage = Some (tagNames, styleType)
       \<and> (\<forall>tagName \<in> set tagNames.
             (tagName = [] \<or> \<not> isDigit (hd tagName))
           \<and> (\<forall>q \<in> set (elementPaths (map lowerAscii tagName) 0 (tree doc)).
                \<forall>element. nodeAt (tree doc) q = Some element \<longrightarrow>
                  classNameOf element = []
                  \<or> (regexPlain (classNameOf element)
                     \<and> \<not> hasContainerRule (styles doc) (classNameOf element))))
       \<longrightarrow> borderFix tagNames styleType doc = Inr (False, [], doc))
   \<and> \<not> hasContainerRule [js ''.a+b{} .ab{border:1px solid red}''] (js ''a+b'')
   \<and> borderFix [js ''p''] [0x8FB9, 0x6846]
        \<lparr>styles = [js ''.a+b{} .ab{border:1px solid red}''],
         tree = [DElement (js ''p'') [(js ''class'', js ''a+b'')] [DText (js ''x'')]]\<rparr>
      = Inr (True,
          [0x5C06] @ js ''1'' @ [0x4E2A] @ js ''<p>'' @ [0x5143, 0x7D20, 0x7684, 0x8FB9, 0x6846,
            0x6837, 0x5F0F, 0x79FB, 0x81F3, 0x5916, 0x5C42] @ js ''<div>'',
          \<lparr>styles = [js ''.a+b{} '' @ replicate 8 32 @ js ''.a+b {'' @ [10] @ replicate 12 32
                       @ js ''border:1px solid red;'' @ [10] @ replicate 8 32 @ js ''}'' @ [10]],
           tree = [DElement (js ''div'') [(js ''class'', js ''a+b'')]
                     [DElement (js ''p'') [] [DText (js ''x'')]]]\<rparr>)"
proof (intro conjI impI)
  assume a: "(\<forall>element. nodeAt snapshot q = Some element \<longrightarrow> regexPlain (classNameOf element))
      \<and> fixElement tagName snapshot st q \<noteq> Inr st"
  show "\<exists>element. nodeAt snapshot q = Some element \<and> classNameOf element \<noteq> []
         \<and> hasContainerRule (st_styles st) (classNameOf element)"
  proof (rule ccontr)
    assume n: "\<not> (\<exists>element. nodeAt snapshot q = Some element \<and> classNameOf element \<noteq> []
         \<and> hasContainerRule (st_styles st) (classNameOf element))"
    have "fixElement tagName snapshot st q = Inr st"
      using a n by (intro fixElement_unchanged) blast
    then show False using a by simp
  qed
next
  assume "\<forall>element. nodeAt snapshot q = Some element \<longrightarrow>
          classNameOf element = []
          \<or> (regexPlain (classNameOf element) \<and> \<not> hasContainerRule (st_styles st) (classNameOf element))"
  then show "fixElement tagName snapshot st q = Inr st"
    by (intro fixElement_unchanged) blast
next
  assume a: "borderCanFix errorMessage = Some (tagNames, styleType)
       \<and> (\<forall>tagName \<in> set tagNames.
             (tagName = [] \<or> \<not> isDigit (hd tagName))
           \<and> (\<forall>q \<in> set (elementPaths (map lowerAscii tagName) 0 (tree doc)).
                \<forall>element. nodeAt (tree doc) q = Some element \<longrightarrow>
                  classNameOf element = []
                  \<or> (regexPlain (classNameOf element)
                     \<and> \<not> hasContainerRule (styles doc) (classNameOf element))))"
  have "fixTags tagNames doc 0 [] = Inr (doc, 0, [])"
    using a by (intro fixTags_unchanged) auto
  then show "borderFix tagNames styleType doc = Inr (False, [], doc)"
    by (simp add: borderFix_def)
next
  show "\<not> hasContainerRule [js ''.a+b{} .ab{border:1px solid red}''] (js ''a+b'')"
    by (simp add: hasContainerRule_def rule_a_plus_b)
next
  show "borderFix [js ''p''] [0x8FB9, 0x6846]
        \<lparr>styles = [js ''.a+b{} .ab{border:1px solid red}''],
         tree = [DElement (js ''p'') [(js ''class'', js ''a+b'')] [DText (js ''x'')]]\<rparr>
      = Inr (True,
          [0x5C06] @ js ''1'' @ [0x4E2A] @ js ''<p>'' @ [0x5143, 0x7D20, 0x7684, 0x8FB9, 0x6846,
            0x6837, 0x5F0F, 0x79FB, 0x81F3, 0x5916, 0x5C42] @ js ''<div>'',
          \<lparr>styles = [js ''.a+b{} '' @ replicate 8 32 @ js ''.a+b {'' @ [10] @ replicate 12 32
                       @ js ''border:1px solid red;'' @ [10] @ replicate 8 32 @ js ''}'' @ [10]],
           tree = [DElement (js ''div'') [(js ''class'', js ''a+b'')]
                     [DElement (js ''p'') [] [DText (js ''x'')]]]\<rparr>)"
    by (rule borderFix_a_plus_b)
qed

theorem borderFix_guards_witness:
  "borderFix [js ''p''] [0x8FB9, 0x6846]
     \<lparr>styles = [js ''.box{border:1px solid #000}''],
      tree = [DElement (js ''p'') [(js ''style'', js ''border:1px solid #000'')] [DText (js ''x'')],
              DElement (js ''p'') [(js ''class'', js ''note'')] [DText (js ''y'')]]\<rparr>
   = Inr (False, [],
     \<lparr>styles = [js ''.box{border:1px solid #000}''],
      tree = [DElement (js ''p'') [(js ''style'', js ''border:1px solid #000'')] [DText (js ''x'')],
              DElement (js ''p'') [(js ''class'', js ''note'')] [DText (js ''y'')]]\<rparr>)"
proof -
  define e0 where "e0 = DElement (js ''p'') [(js ''style'', js ''border:1px solid #000'')] [DText (js ''x'')]"
  define e1 where "e1 = DElement (js ''p'') [(js ''class'', js ''note'')] [DText (js ''y'')]"
  define doc where "doc = \<lparr>styles = [js ''.box{border:1px solid #000}''], tree = [e0, e1]\<rparr>"
  have c: "borderCanFix (str_text_element @ js ''p'' @ str_has @ [0x8FB9, 0x6846])
             = Some ([js ''p''], [0x8FB9, 0x6846])"
    by (simp add: border_eval js_eval)
  have paths: "elementPaths (map lowerAscii (js ''p'')) 0 (tree doc) = [[0], [1]]"
    by (simp add: doc_def e0_def e1_def lowerAscii_def js_def)
  have n: "nodeAt (tree doc) [0] = Some e0" "nodeAt (tree doc) [1] = Some e1"
    by (simp_all add: doc_def)
  have c0: "classNameOf e0 = []" and c1: "classNameOf e1 = js ''note''"
    by (simp_all add: classNameOf_def e0_def e1_def js_def)
  have p1: "regexPlain (js ''note'')" by (simp add: regexPlain_def js_def)
  have "findFirst (classRuleAt (js ''note'')) (js ''.box{border:1px solid #000}'') = None"
    by (simp add: classRuleAt_def js_eval)
  then have h1: "\<not> hasContainerRule (styles doc) (js ''note'')"
    by (simp add: hasContainerRule_def doc_def)
  have d: "\<not> isDigit (hd (js ''p''))" by (simp add: js_eval)
  have "\<forall>q \<in> set (elementPaths (map lowerAscii (js ''p'')) 0 (tree doc)).
          \<forall>element. nodeAt (tree doc) q = Some element \<longrightarrow>
            classNameOf element = []
            \<or> (regexPlain (classNameOf element) \<and> \<not> hasContainerRule (styles doc) (classNameOf element))"
    unfolding paths using n c0 c1 p1 h1 by simp
  then have "borderFix [js ''p''] [0x8FB9, 0x6846] doc = Inr (False, [], doc)"
    using borderFix_guards [where tagName = "js ''p''" and snapshot = "[]" and q = "[]"
        and st = "\<lparr>st_styles = [], st_tree = [], st_wrapped = [], st_fixCount = 0\<rparr>"
        and errorMessage = "str_text_element @ js ''p'' @ str_has @ [0x8FB9, 0x6846]"
        and tagNames = "[js ''p'']" and styleType = "[0x8FB9, 0x6846]" and doc = doc] c d
    by simp
  then show ?thesis unfolding doc_def e0_def e1_def .
qed
end
